theory Spec2Isabelle
  imports Main "HOL-Library.Word" "HOL-Library.Monad_Syntax"
begin

unbundle bit_operations_syntax

section \<open>RingBufferSized.h: the single-producer/single-consumer ring buffer\<close>

text \<open>
  \<^verbatim>\<open>template <class T, int Size> class RingBufferSized\<close> has three members: the
  backing array \<^verbatim>\<open>T mBuffer[Size]\<close> and the two cursors \<^verbatim>\<open>mIn\<close> and \<^verbatim>\<open>mOut\<close> of type
  \<^verbatim>\<open>TIndex = int\<close>. The object is a record; the template parameter \<^verbatim>\<open>Size\<close> is the
  first argument of every member function.

  The cursors are modelled as \<open>int\<close>. In every state that satisfies the class invariant
  \<open>rb_inv\<close> below, each intermediate value of the member functions lies between \<open>- Size\<close>
  and \<open>Size\<close>, so the 32-bit \<^verbatim>\<open>int\<close> of the target never overflows.

  An access outside an array is undefined behaviour in C++. The model makes it a value:
  every member function that indexes \<^verbatim>\<open>mBuffer\<close> returns an \<open>option\<close>, and \<open>None\<close> stands
  for an access outside the array.
\<close>

record 'a RingBufferSized =
  mBuffer :: "'a list"
  mIn :: int
  mOut :: int

text \<open>\<^verbatim>\<open>a[i]\<close> as an rvalue and \<^verbatim>\<open>a[i] = v\<close>, with the range check written out.\<close>

definition arr_get :: "'a list \<Rightarrow> int \<Rightarrow> 'a option" where
  "arr_get a i = (if 0 \<le> i \<and> i < int (length a) then Some (a ! nat i) else None)"

definition arr_set :: "'a list \<Rightarrow> int \<Rightarrow> 'a \<Rightarrow> 'a list option" where
  "arr_set a i v = (if 0 \<le> i \<and> i < int (length a) then Some (a[nat i := v]) else None)"

text \<open>
  \<^verbatim>\<open>memcpy(dst + d, src + s, n * sizeof(T))\<close>: copies \<open>n\<close> elements. A negative \<open>n\<close>
  converts to a huge \<^verbatim>\<open>size_t\<close>, so it runs outside both arrays like any other range
  that does not fit.
\<close>

definition memcpy :: "'a list \<Rightarrow> int \<Rightarrow> 'a list \<Rightarrow> int \<Rightarrow> int \<Rightarrow> 'a list option" where
  "memcpy dst d src s n =
     (if 0 \<le> n \<and> 0 \<le> d \<and> 0 \<le> s \<and> d + n \<le> int (length dst) \<and> s + n \<le> int (length src)
      then Some (take (nat d) dst @ take (nat n) (drop (nat s) src) @ drop (nat (d + n)) dst)
      else None)"

text \<open>
  The constructor \<^verbatim>\<open>RingBufferSized() : mIn(0), mOut(0)\<close> sets the cursors and leaves the
  array as it finds it: \<open>buf0\<close> is whatever the storage holds.
\<close>

definition RingBufferSized_new :: "'a list \<Rightarrow> 'a RingBufferSized" where
  "RingBufferSized_new buf0 = \<lparr>mBuffer = buf0, mIn = 0, mOut = 0\<rparr>"

definition Clear :: "'a RingBufferSized \<Rightarrow> 'a RingBufferSized" where
  "Clear rb = rb\<lparr>mOut := mIn rb\<rparr>"

definition GetCount :: "int \<Rightarrow> 'a RingBufferSized \<Rightarrow> int" where
  "GetCount Size rb =
     (let result = mIn rb - mOut rb;
          result = (if result < 0 then result + Size else result)
      in result)"

definition GetSpace :: "int \<Rightarrow> 'a RingBufferSized \<Rightarrow> int" where
  "GetSpace Size rb = (Size - 1) - GetCount Size rb"

text \<open>\<^verbatim>\<open>if (c >= Size) c -= Size;\<close> the wrap step that follows every cursor increment.\<close>

definition wrap :: "int \<Rightarrow> int \<Rightarrow> int" where
  "wrap Size c = (if c \<ge> Size then c - Size else c)"

text \<open>\<^verbatim>\<open>bool Push(T val)\<close>\<close>

definition Push :: "int \<Rightarrow> 'a RingBufferSized \<Rightarrow> 'a \<Rightarrow> (bool \<times> 'a RingBufferSized) option" where
  "Push Size rb val =
     (if GetSpace Size rb \<noteq> 0
      then do {
        buf \<leftarrow> arr_set (mBuffer rb) (mIn rb) val;
        Some (True, rb\<lparr>mBuffer := buf, mIn := wrap Size (mIn rb + 1)\<rparr>)
      }
      else Some (False, rb))"

text \<open>
  \<^verbatim>\<open>int Push(const T *val, TIndex nToPushIn)\<close>: \<open>val\<close> is the caller's array, \<open>nToPushIn\<close>
  the number of elements the caller asks for.
\<close>

definition PushN :: "int \<Rightarrow> 'a RingBufferSized \<Rightarrow> 'a list \<Rightarrow> int \<Rightarrow> (int \<times> 'a RingBufferSized) option" where
  "PushN Size rb val nToPushIn =
     (let nToPushRemain = nToPushIn;
          space = GetSpace Size rb;
          (nToPushRemain, space) =
             (if nToPushRemain > space then (space, space) else (nToPushRemain, nToPushIn))
      in if nToPushRemain \<noteq> 0
         then
           (let lenToCopy1 = Size - mIn rb;
                lenToCopy1 = (if lenToCopy1 > nToPushRemain then nToPushRemain else lenToCopy1)
            in do {
              buf1 \<leftarrow> memcpy (mBuffer rb) (mIn rb) val 0 lenToCopy1;
              let in1 = wrap Size (mIn rb + lenToCopy1);
              let nToPushRemain = nToPushRemain - lenToCopy1;
              if nToPushRemain \<noteq> 0
              then do {
                buf2 \<leftarrow> memcpy buf1 0 val lenToCopy1 nToPushRemain;
                Some (space, rb\<lparr>mBuffer := buf2, mIn := wrap Size (in1 + nToPushRemain)\<rparr>)
              }
              else Some (space, rb\<lparr>mBuffer := buf1, mIn := in1\<rparr>)
            })
         else Some (space, rb))"

text \<open>
  \<^verbatim>\<open>bool Get(T *val) const\<close>: the second component of the result is the value of \<^verbatim>\<open>*val\<close>
  after the call, \<open>val\<close> is its value before.
\<close>

definition Get_ptr :: "int \<Rightarrow> 'a RingBufferSized \<Rightarrow> 'a \<Rightarrow> (bool \<times> 'a) option" where
  "Get_ptr Size rb val =
     (if GetCount Size rb \<noteq> 0
      then do { x \<leftarrow> arr_get (mBuffer rb) (mOut rb); Some (True, x) }
      else Some (False, val))"

text \<open>\<^verbatim>\<open>const T &Get() const\<close>\<close>

definition Get :: "'a RingBufferSized \<Rightarrow> 'a option" where
  "Get rb = arr_get (mBuffer rb) (mOut rb)"

text \<open>\<^verbatim>\<open>const T &GetNext()\<close>: no test of the count.\<close>

definition GetNext :: "int \<Rightarrow> 'a RingBufferSized \<Rightarrow> ('a \<times> 'a RingBufferSized) option" where
  "GetNext Size rb =
     do {
       result \<leftarrow> arr_get (mBuffer rb) (mOut rb);
       Some (result, rb\<lparr>mOut := wrap Size (mOut rb + 1)\<rparr>)
     }"

text \<open>\<^verbatim>\<open>bool GetNext(T *val)\<close>, with \<^verbatim>\<open>*val\<close> passed in and out as for \<open>Get_ptr\<close>.\<close>

definition GetNext_ptr :: "int \<Rightarrow> 'a RingBufferSized \<Rightarrow> 'a \<Rightarrow> (bool \<times> 'a \<times> 'a RingBufferSized) option" where
  "GetNext_ptr Size rb val =
     (if GetCount Size rb \<noteq> 0
      then do {
        x \<leftarrow> arr_get (mBuffer rb) (mOut rb);
        Some (True, x, rb\<lparr>mOut := wrap Size (mOut rb + 1)\<rparr>)
      }
      else Some (False, val, rb))"

text \<open>\<^verbatim>\<open>bool NextOut()\<close>\<close>

definition NextOut :: "int \<Rightarrow> 'a RingBufferSized \<Rightarrow> bool \<times> 'a RingBufferSized" where
  "NextOut Size rb =
     (if GetCount Size rb \<noteq> 0
      then (True, rb\<lparr>mOut := wrap Size (mOut rb + 1)\<rparr>)
      else (False, rb))"

text \<open>
  The class invariant: the array has \<open>Size\<close> slots and both cursors index it. The
  constructor establishes it and every member function keeps it.
\<close>

definition rb_inv :: "int \<Rightarrow> 'a RingBufferSized \<Rightarrow> bool" where
  "rb_inv Size rb \<longleftrightarrow>
     int (length (mBuffer rb)) = Size \<and> 0 \<le> mIn rb \<and> mIn rb < Size \<and> 0 \<le> mOut rb \<and> mOut rb < Size"

text \<open>
  The calls that change a buffer, for statements about every sequence of calls. The bulk
  push is called with the length of its array; \<open>CallGetNext_ptr v\<close> passes a pointer to a
  variable that holds \<open>v\<close>.
\<close>

datatype 'a rb_call =
    CallPush 'a
  | CallPushN "'a list"
  | CallGetNext
  | CallGetNext_ptr 'a
  | CallNextOut
  | CallClear

fun call :: "int \<Rightarrow> 'a RingBufferSized \<Rightarrow> 'a rb_call \<Rightarrow> 'a RingBufferSized option" where
  "call Size rb (CallPush v) = map_option snd (Push Size rb v)"
| "call Size rb (CallPushN vs) = map_option snd (PushN Size rb vs (int (length vs)))"
| "call Size rb CallGetNext = map_option snd (GetNext Size rb)"
| "call Size rb (CallGetNext_ptr v) = map_option (\<lambda>(b, x, rb'). rb') (GetNext_ptr Size rb v)"
| "call Size rb CallNextOut = Some (snd (NextOut Size rb))"
| "call Size rb CallClear = Some (Clear rb)"

fun calls :: "int \<Rightarrow> 'a RingBufferSized \<Rightarrow> 'a rb_call list \<Rightarrow> 'a RingBufferSized option" where
  "calls Size rb [] = Some rb"
| "calls Size rb (c # cs) = call Size rb c \<bind> (\<lambda>rb'. calls Size rb' cs)"

text \<open>One \<open>Push\<close> per element of a list, with the result of each.\<close>

fun push_all :: "int \<Rightarrow> 'a RingBufferSized \<Rightarrow> 'a list \<Rightarrow> (bool list \<times> 'a RingBufferSized) option" where
  "push_all Size rb [] = Some ([], rb)"
| "push_all Size rb (x # xs) =
     do {
       (b, rb') \<leftarrow> Push Size rb x;
       (bs, rb'') \<leftarrow> push_all Size rb' xs;
       Some (b # bs, rb'')
     }"

text \<open>
  Two notions for stating results. \<open>blit dst d xs\<close> is \<open>dst\<close> with the run \<open>xs\<close> written from
  index \<open>d\<close> on, which is what a \<open>memcpy\<close> inside the array leaves. \<open>contents\<close> is the queue
  a buffer state stands for: the \<open>GetCount\<close> elements from the read cursor on, in the order
  in which they would be popped.
\<close>

definition blit :: "'a list \<Rightarrow> nat \<Rightarrow> 'a list \<Rightarrow> 'a list" where
  "blit dst d xs = take d dst @ xs @ drop (d + length xs) dst"

definition contents :: "int \<Rightarrow> 'a RingBufferSized \<Rightarrow> 'a list" where
  "contents Size rb =
     map (\<lambda>i. mBuffer rb ! nat ((mOut rb + int i) mod Size)) [0..<nat (GetCount Size rb)]"

section \<open>ADIPackets.h: the packets\<close>

text \<open>
  Modelled from the spec: the byte sink. \<^verbatim>\<open>Stream\<close> is declared in \<^verbatim>\<open>Arduino.h\<close>, which is
  not among the sources. Section 6 of the specification describes it as a sink exposing
  \<^verbatim>\<open>write(bytes) -> count_written\<close>, used for single bytes and for byte ranges. The model
  is the sink that takes every byte it is given: its state is the list of bytes written
  so far, and a write appends and returns the number of bytes.
\<close>

type_synonym Stream = "8 word list"

definition stream_write_byte :: "Stream \<Rightarrow> 8 word \<Rightarrow> int \<times> Stream" where
  "stream_write_byte stream b = (1, stream @ [b])"

definition stream_write :: "Stream \<Rightarrow> 8 word list \<Rightarrow> int \<times> Stream" where
  "stream_write stream bs = (int (length bs), stream @ bs)"

text \<open>
  \<^verbatim>\<open>reinterpret_cast<const uint8_t *>\<close> exposes the object representation of the fields.
  The packets send it as it lies in memory, so the byte order is that of the processor:
  little-endian on the Teensy 4.1. The order is a parameter, and \<open>object_bytes e n w\<close> are
  the \<open>n\<close> bytes of the integer \<open>w\<close>. An array is the concatenation of its elements.
\<close>

datatype endian = LittleEndian | BigEndian

definition object_bytes :: "endian \<Rightarrow> nat \<Rightarrow> 'a::len word \<Rightarrow> 8 word list" where
  "object_bytes e n w =
     (let le = map (\<lambda>i. ucast (drop_bit (8 * i) w)) [0..<n]
      in case e of LittleEndian \<Rightarrow> le | BigEndian \<Rightarrow> rev le)"

text \<open>
  The integer that a run of bytes stands for in a given byte order, as the receiver of the
  stream reads it: the first byte of the little-endian order is the least significant. It
  is written without reference to \<open>object_bytes\<close> and serves to state that a field can be
  read back from the bytes on the wire.
\<close>

definition value_of_bytes :: "endian \<Rightarrow> 8 word list \<Rightarrow> 'a::len word" where
  "value_of_bytes e bs =
     (let le = (case e of LittleEndian \<Rightarrow> bs | BigEndian \<Rightarrow> rev bs)
      in foldr (\<lambda>b v. ucast b OR push_bit 8 v) le 0)"

text \<open>
  Reading \<open>len\<close> bytes from the start of an object of bytes \<open>obj\<close>: past the end of the
  object it is undefined behaviour, \<open>None\<close>.
\<close>

definition read_object :: "8 word list \<Rightarrow> int \<Rightarrow> 8 word list option" where
  "read_object obj len =
     (if 0 \<le> len \<and> len \<le> int (length obj) then Some (take (nat len) obj) else None)"

definition kPointsPerMediumSizePacket :: int where
  "kPointsPerMediumSizePacket = 10"

definition kADCChannels :: int where
  "kADCChannels = 2"

definition kPointsPerPacket :: int where
  "kPointsPerPacket = 1"

text \<open>
  \<^verbatim>\<open>extern int gADCPointsPerPacket\<close> is defined outside the header and no function of the
  header assigns it: it is the argument \<open>gADCPointsPerPacket\<close> of the functions that read it.
  \<^verbatim>\<open>static uint8_t sPacketCount\<close> of \<^verbatim>\<open>PacketBase\<close> is one variable for all packet
  classes; every \<open>write\<close> takes its value and returns the new one.
\<close>

definition ResetPacketCount :: "8 word \<Rightarrow> 8 word" where
  "ResetPacketCount sPacketCount = 0"

subsection \<open>class Packet\<close>

record Packet =
  mPoint :: int
  mData :: "16 word list list"

text \<open>\<^verbatim>\<open>const char sHeader[2] = {'P', 0xA0}\<close>\<close>

definition sHeader :: "8 word list" where
  "sHeader = [0x50, 0xA0]"

text \<open>
  \<^verbatim>\<open>Packet() : mPoint(0)\<close> leaves \<^verbatim>\<open>mData\<close> as the storage holds it: \<open>data0\<close>.
\<close>

definition Packet_new :: "16 word list list \<Rightarrow> Packet" where
  "Packet_new data0 = \<lparr>mPoint = 0, mData = data0\<rparr>"

definition addSample :: "int \<Rightarrow> Packet \<Rightarrow> int \<Rightarrow> 16 word \<Rightarrow> (bool \<times> Packet) option" where
  "addSample gADCPointsPerPacket p chan sample =
     (if mPoint p \<ge> gADCPointsPerPacket then Some (False, p)
      else do {
        row \<leftarrow> arr_get (Packet.mData p) (mPoint p);
        row' \<leftarrow> arr_set row chan sample;
        d \<leftarrow> arr_set (Packet.mData p) (mPoint p) row';
        Some (True, p\<lparr>Packet.mData := d\<rparr>)
      })"

definition nextPoint :: "Packet \<Rightarrow> Packet" where
  "nextPoint p = p\<lparr>mPoint := mPoint p + 1\<rparr>"

text \<open>
  The length of the payload is computed in \<^verbatim>\<open>size_t\<close>, 32 bits wide on the target:
  \<^verbatim>\<open>sizeof(int16_t) * kADCChannels * gADCPointsPerPacket\<close>, with the wrap-around of a
  negative \<^verbatim>\<open>gADCPointsPerPacket\<close> written out.
\<close>

definition payload_size :: "int \<Rightarrow> int" where
  "payload_size gADCPointsPerPacket = (2 * kADCChannels * gADCPointsPerPacket) mod 2 ^ 32"

definition Packet_write ::
  "endian \<Rightarrow> int \<Rightarrow> Packet \<Rightarrow> Stream \<Rightarrow> 8 word \<Rightarrow> (int \<times> Stream \<times> 8 word) option" where
  "Packet_write e gADCPointsPerPacket p stream sPacketCount =
     (let (n, stream) = stream_write stream (take 2 sHeader);
          (k, stream) = stream_write_byte stream (if gADCPointsPerPacket = 1 then 0x44 else 0x4D);
          n = n + k;
          (k, stream) = stream_write_byte stream sPacketCount;
          sPacketCount = sPacketCount + 1;
          n = n + k
      in do {
        bytes \<leftarrow> read_object (concat (map (\<lambda>row. concat (map (object_bytes e 2) row)) (Packet.mData p)))
                   (payload_size gADCPointsPerPacket);
        let (k, stream) = stream_write stream bytes;
        Some (n + k, stream, sPacketCount)
      })"

subsection \<open>class TimePacket\<close>

record TimePacket =
  mData :: "32 word list"
  mTimeRequestNumber :: "8 word"

text \<open>\<^verbatim>\<open>const char sHeaderAndPacketType[3] = {'P', 0xA0, 'N'}\<close>\<close>

definition TimePacket_sHeaderAndPacketType :: "8 word list" where
  "TimePacket_sHeaderAndPacketType = [0x50, 0xA0, 0x4E]"

definition TimePacket_new :: "32 word \<Rightarrow> 8 word \<Rightarrow> TimePacket" where
  "TimePacket_new tick32us timeRequestNumber =
     \<lparr>mData = [tick32us], mTimeRequestNumber = timeRequestNumber\<rparr>"

text \<open>
  \<open>writeData\<close> and \<open>write\<close> are inherited by \<^verbatim>\<open>LatestUSBFrameTimePacket\<close>: they take any
  extension of the record. \<^verbatim>\<open>sizeof(mData)\<close> is the whole array.
\<close>

definition writeData ::
  "endian \<Rightarrow> 'a TimePacket_scheme \<Rightarrow> Stream \<Rightarrow> 8 word \<Rightarrow> int \<times> Stream \<times> 8 word" where
  "writeData e p stream sPacketCount =
     (let (n, stream) = stream_write_byte stream sPacketCount;
          sPacketCount = sPacketCount + 1;
          (k, stream) = stream_write_byte stream (mTimeRequestNumber p);
          n = n + k;
          (k, stream) = stream_write stream (concat (map (object_bytes e 4) (TimePacket.mData p)));
          n = n + k
      in (n, stream, sPacketCount))"

definition TimePacket_write ::
  "endian \<Rightarrow> 'a TimePacket_scheme \<Rightarrow> Stream \<Rightarrow> 8 word \<Rightarrow> int \<times> Stream \<times> 8 word" where
  "TimePacket_write e p stream sPacketCount =
     (let (n, stream) = stream_write stream (take 3 TimePacket_sHeaderAndPacketType);
          (k, stream, sPacketCount) = writeData e p stream sPacketCount;
          n = n + k
      in (n, stream, sPacketCount))"

subsection \<open>class FirstSampleTimePacket\<close>

record FirstSampleTimePacket =
  mData :: "32 word list"

text \<open>\<^verbatim>\<open>const char sHeaderAndPacketType[3] = {'P', 0xA0, 'F'}\<close>\<close>

definition FirstSampleTimePacket_sHeaderAndPacketType :: "8 word list" where
  "FirstSampleTimePacket_sHeaderAndPacketType = [0x50, 0xA0, 0x46]"

definition FirstSampleTimePacket_new :: "32 word \<Rightarrow> FirstSampleTimePacket" where
  "FirstSampleTimePacket_new tick32us = \<lparr>mData = [tick32us]\<rparr>"

definition FirstSampleTimePacket_write ::
  "endian \<Rightarrow> FirstSampleTimePacket \<Rightarrow> Stream \<Rightarrow> 8 word \<Rightarrow> int \<times> Stream \<times> 8 word" where
  "FirstSampleTimePacket_write e p stream sPacketCount =
     (let (n, stream) = stream_write stream (take 3 FirstSampleTimePacket_sHeaderAndPacketType);
          (k, stream) = stream_write_byte stream sPacketCount;
          sPacketCount = sPacketCount + 1;
          n = n + k;
          (k, stream) = stream_write stream (concat (map (object_bytes e 4) (FirstSampleTimePacket.mData p)));
          n = n + k
      in (n, stream, sPacketCount))"

subsection \<open>class LatestUSBFrameTimePacket\<close>

record LatestUSBFrameTimePacket = TimePacket +
  mFrameNumber :: "16 word"
  mFrameTimeus :: "32 word"

text \<open>\<^verbatim>\<open>const char sHeaderAndPacketType[3] = {'P', 0xA0, 'L'}\<close>\<close>

definition LatestUSBFrameTimePacket_sHeaderAndPacketType :: "8 word list" where
  "LatestUSBFrameTimePacket_sHeaderAndPacketType = [0x50, 0xA0, 0x4C]"

definition LatestUSBFrameTimePacket_new ::
  "32 word \<Rightarrow> 8 word \<Rightarrow> 16 word \<Rightarrow> 32 word \<Rightarrow> LatestUSBFrameTimePacket" where
  "LatestUSBFrameTimePacket_new tick32us timeRequestNumber frameNumber latestFrameus =
     TimePacket.extend (TimePacket_new tick32us timeRequestNumber)
       (LatestUSBFrameTimePacket.fields frameNumber latestFrameus)"

definition LatestUSBFrameTimePacket_write ::
  "endian \<Rightarrow> LatestUSBFrameTimePacket \<Rightarrow> Stream \<Rightarrow> 8 word \<Rightarrow> int \<times> Stream \<times> 8 word" where
  "LatestUSBFrameTimePacket_write e p stream sPacketCount =
     (let (n, stream) = stream_write stream (take 3 LatestUSBFrameTimePacket_sHeaderAndPacketType);
          (k, stream, sPacketCount) = writeData e p stream sPacketCount;
          n = n + k;
          (k, stream) = stream_write stream (object_bytes e 2 (mFrameNumber p));
          n = n + k;
          (k, stream) = stream_write stream (object_bytes e 4 (mFrameTimeus p));
          n = n + k
      in (n, stream, sPacketCount))"

subsection \<open>Sequences of writes\<close>

text \<open>
  A packet of any class, and the \<open>write\<close> of its class. \<open>write_all\<close> writes a list of
  packets one after the other to the same stream, threading the packet counter, and
  returns the bytes that each write added to the stream.
\<close>

datatype any_packet =
    Data Packet
  | Time TimePacket
  | FirstSampleTime FirstSampleTimePacket
  | LatestUSBFrameTime LatestUSBFrameTimePacket

fun write_any ::
  "endian \<Rightarrow> int \<Rightarrow> any_packet \<Rightarrow> Stream \<Rightarrow> 8 word \<Rightarrow> (int \<times> Stream \<times> 8 word) option" where
  "write_any e gN (Data p) stream c = Packet_write e gN p stream c"
| "write_any e gN (Time p) stream c = Some (TimePacket_write e p stream c)"
| "write_any e gN (FirstSampleTime p) stream c = Some (FirstSampleTimePacket_write e p stream c)"
| "write_any e gN (LatestUSBFrameTime p) stream c = Some (LatestUSBFrameTimePacket_write e p stream c)"

definition emitted :: "Stream \<Rightarrow> Stream \<Rightarrow> 8 word list" where
  "emitted stream stream' = drop (length stream) stream'"

fun write_all ::
  "endian \<Rightarrow> int \<Rightarrow> any_packet list \<Rightarrow> Stream \<Rightarrow> 8 word \<Rightarrow> (8 word list list \<times> Stream \<times> 8 word) option" where
  "write_all e gN [] stream c = Some ([], stream, c)"
| "write_all e gN (p # ps) stream c =
     do {
       (n, stream', c') \<leftarrow> write_any e gN p stream c;
       (chunks, stream'', c'') \<leftarrow> write_all e gN ps stream' c';
       Some (emitted stream stream' # chunks, stream'', c'')
     }"

text \<open>
  The storage of a \<open>Packet\<close>: \<^verbatim>\<open>int16_t mData[kPointsPerMediumSizePacket][kADCChannels]\<close>,
  and a point index that starts at 0 and is only ever incremented.
\<close>

definition Packet_inv :: "Packet \<Rightarrow> bool" where
  "Packet_inv p \<longleftrightarrow>
     int (length (Packet.mData p)) = kPointsPerMediumSizePacket \<and>
     list_all (\<lambda>row. int (length row) = kADCChannels) (Packet.mData p) \<and>
     0 \<le> mPoint p"

section \<open>Arithmetic of the cursors, and what a copy leaves in the array\<close>


lemma GetCount_mod: "rb_inv Size rb \<Longrightarrow> GetCount Size rb = (mIn rb - mOut rb) mod Size"
proof -
  assume inv: "rb_inv Size rb"
  let ?d = "mIn rb - mOut rb"
  show ?thesis
  proof (cases "?d < 0")
    case True
    with inv have "0 \<le> ?d + Size" "?d + Size < Size" by (auto simp: rb_inv_def)
    then have "(?d + Size) mod Size = ?d + Size" by (rule mod_pos_pos_trivial)
    then have "?d mod Size = ?d + Size" by (simp only: mod_add_self2)
    with True show ?thesis by (simp add: GetCount_def)
  next
    case False
    with inv have "0 \<le> ?d" "?d < Size" by (auto simp: rb_inv_def)
    then have "?d mod Size = ?d" by simp
    with False show ?thesis by (simp add: GetCount_def)
  qed
qed

lemma wrap_mod: "0 \<le> c \<Longrightarrow> c \<le> Size \<Longrightarrow> 0 < Size \<Longrightarrow> wrap Size c = c mod Size"
  by (cases "c = Size") (auto simp: wrap_def)


lemma memcpy_blit:
  "0 \<le> n \<Longrightarrow> 0 \<le> d \<Longrightarrow> 0 \<le> s \<Longrightarrow> d + n \<le> int (length dst) \<Longrightarrow> s + n \<le> int (length src) \<Longrightarrow>
   memcpy dst d src s n = Some (blit dst (nat d) (take (nat n) (drop (nat s) src)))"
proof -
  assume a: "0 \<le> n" "0 \<le> d" "0 \<le> s" "d + n \<le> int (length dst)" "s + n \<le> int (length src)"
  then have "length (take (nat n) (drop (nat s) src)) = nat n" by simp
  with a show ?thesis by (simp add: memcpy_def blit_def nat_add_distrib)
qed

lemma length_blit: "d + length xs \<le> length dst \<Longrightarrow> length (blit dst d xs) = length dst"
  by (simp add: blit_def)

lemma nth_blit:
  "d + length xs \<le> length dst \<Longrightarrow> j < length dst \<Longrightarrow>
   blit dst d xs ! j = (if d \<le> j \<and> j < d + length xs then xs ! (j - d) else dst ! j)"
  by (auto simp: blit_def nth_append)


lemma PushN_unfold:
  "PushN Size rb val n =
     (let k = min n (GetSpace Size rb) in
      if k \<noteq> 0 then
        (let l = min k (Size - mIn rb) in
         memcpy (mBuffer rb) (mIn rb) val 0 l \<bind> (\<lambda>buf1.
           if k - l \<noteq> 0
           then memcpy buf1 0 val l (k - l) \<bind> (\<lambda>buf2.
                  Some (k, rb\<lparr>mBuffer := buf2, mIn := wrap Size (wrap Size (mIn rb + l) + (k - l))\<rparr>))
           else Some (k, rb\<lparr>mBuffer := buf1, mIn := wrap Size (mIn rb + l)\<rparr>)))
      else Some (k, rb))"
  by (simp add: PushN_def Let_def min_def)

lemma PushN_none_left:
  assumes inv: "rb_inv Size rb" and n: "0 \<le> n" "n \<le> int (length val)"
      and k: "k = min n (GetSpace Size rb)" and k0: "k = 0"
  shows "PushN Size rb val n = Some (k, rb)"
  using assms by (auto simp: PushN_def Let_def min_def)

lemma PushN_one_range:
  assumes inv: "rb_inv Size rb" and n: "0 \<le> n" "n \<le> int (length val)"
      and k: "k = min n (GetSpace Size rb)" and k0: "0 < k" and fit: "k \<le> Size - mIn rb"
  shows "PushN Size rb val n =
         Some (k, rb\<lparr>mBuffer := blit (mBuffer rb) (nat (mIn rb)) (take (nat k) val),
                     mIn := (mIn rb + k) mod Size\<rparr>)"
proof -
  have m: "memcpy (mBuffer rb) (mIn rb) val 0 k = Some (blit (mBuffer rb) (nat (mIn rb)) (take (nat k) val))"
    using memcpy_blit[of k "mIn rb" 0 "mBuffer rb" val] assms by (simp add: rb_inv_def)
  have w: "wrap Size (mIn rb + k) = (mIn rb + k) mod Size"
    using assms by (intro wrap_mod) (auto simp: rb_inv_def)
  have "min k (Size - mIn rb) = k" using fit by simp
  then show ?thesis
    unfolding PushN_unfold Let_def k[symmetric] using k0 m w by simp
qed

lemma PushN_two_ranges:
  assumes inv: "rb_inv Size rb" and n: "0 \<le> n" "n \<le> int (length val)"
      and k: "k = min n (GetSpace Size rb)" and fit: "Size - mIn rb < k"
  shows "PushN Size rb val n =
         Some (k, rb\<lparr>mBuffer := blit (blit (mBuffer rb) (nat (mIn rb)) (take (nat (Size - mIn rb)) val)) 0
                                   (take (nat (k - (Size - mIn rb))) (drop (nat (Size - mIn rb)) val)),
                     mIn := (mIn rb + k) mod Size\<rparr>)"
proof -
  let ?l = "Size - mIn rb"
  let ?b1 = "blit (mBuffer rb) (nat (mIn rb)) (take (nat ?l) val)"
  have sp: "GetSpace Size rb \<le> Size - 1"
    using inv by (auto simp: GetSpace_def GetCount_def rb_inv_def Let_def)
  have l: "0 < ?l" "?l < k" "k \<le> n" "k \<le> Size - 1" using assms sp by (auto simp: rb_inv_def)
  have m1: "memcpy (mBuffer rb) (mIn rb) val 0 ?l = Some ?b1"
    using memcpy_blit[of ?l "mIn rb" 0 "mBuffer rb" val] assms l by (simp add: rb_inv_def)
  have len1: "int (length ?b1) = Size"
    using inv l n by (subst length_blit) (auto simp: rb_inv_def)
  have m2: "memcpy ?b1 0 val ?l (k - ?l) = Some (blit ?b1 0 (take (nat (k - ?l)) (drop (nat ?l) val)))"
    using memcpy_blit[of "k - ?l" 0 ?l ?b1 val] l n len1 by simp
  have w1: "wrap Size (mIn rb + ?l) = 0" by (simp add: wrap_def)
  have w2: "wrap Size (0 + (k - ?l)) = (mIn rb + k) mod Size"
  proof -
    have "0 \<le> k - ?l" "k - ?l < Size" using l inv by (auto simp: rb_inv_def)
    then have "(k - ?l) mod Size = k - ?l" by simp
    moreover have "k - ?l = (mIn rb + k) - Size" by simp
    then have "(k - ?l) mod Size = (mIn rb + k) mod Size"
      by (simp only: minus_mod_self2)
    ultimately show ?thesis using \<open>k - ?l < Size\<close> by (simp add: wrap_def)
  qed
  have "min k ?l = ?l" using l by simp
  then show ?thesis
    unfolding PushN_unfold Let_def k[symmetric] using l m1 m2 w1 w2 by simp
qed

lemma circ_off:
  fixes m S j :: int
  assumes "0 \<le> m" "m < S" "0 \<le> j" "j < S"
  shows "(j - m) mod S = (if m \<le> j then j - m else j - m + S)"
proof (cases "m \<le> j")
  case True
  with assms have "0 \<le> j - m" "j - m < S" by auto
  then have "(j - m) mod S = j - m" by (rule mod_pos_pos_trivial)
  with True show ?thesis by simp
next
  case False
  with assms have "0 \<le> j - m + S" "j - m + S < S" by auto
  then have "(j - m + S) mod S = j - m + S" by (rule mod_pos_pos_trivial)
  then have "(j - m) mod S = j - m + S" by (simp only: mod_add_self2)
  with False show ?thesis by simp
qed

lemma one_range_nth:
  fixes m k S j :: int
  assumes "int (length buf) = S" "0 \<le> m" "m < S" "0 \<le> k" "k \<le> S - m" "k \<le> int (length val)"
      and "0 \<le> j" "j < S"
  shows "blit buf (nat m) (take (nat k) val) ! nat j =
         (if (j - m) mod S < k then val ! nat ((j - m) mod S) else buf ! nat j)"
proof -
  have len: "length (take (nat k) val) = nat k" using assms by simp
  have "nat m + length (take (nat k) val) \<le> length buf" "nat j < length buf"
    using assms len by auto
  then have "blit buf (nat m) (take (nat k) val) ! nat j =
     (if nat m \<le> nat j \<and> nat j < nat m + nat k then take (nat k) val ! (nat j - nat m) else buf ! nat j)"
    by (simp only: nth_blit len)
  also have "\<dots> = (if (j - m) mod S < k then val ! nat ((j - m) mod S) else buf ! nat j)"
    using assms by (auto simp: circ_off nat_diff_distrib)
  finally show ?thesis .
qed

lemma nth_blit_len:
  "length xs = n \<Longrightarrow> d + n \<le> length dst \<Longrightarrow> j < length dst \<Longrightarrow>
   blit dst d xs ! j = (if d \<le> j \<and> j < d + n then xs ! (j - d) else dst ! j)"
  by (simp add: nth_blit)

lemma two_ranges_nth:
  fixes m k S j :: int
  assumes "int (length buf) = S" "0 \<le> m" "m < S" "S - m < k" "k \<le> S - 1" "k \<le> int (length val)"
      and "0 \<le> j" "j < S"
  shows "blit (blit buf (nat m) (take (nat (S - m)) val)) 0
              (take (nat (k - (S - m))) (drop (nat (S - m)) val)) ! nat j =
         (if (j - m) mod S < k then val ! nat ((j - m) mod S) else buf ! nat j)"
proof -
  let ?l = "S - m"
  let ?xs = "take (nat ?l) val"
  let ?ys = "take (nat (k - ?l)) (drop (nat ?l) val)"
  let ?b1 = "blit buf (nat m) ?xs"
  have lx: "length ?xs = nat ?l" using assms by simp
  have ly: "length ?ys = nat (k - ?l)" using assms by simp
  have fit1: "nat m + length ?xs \<le> length buf" using assms lx by auto
  have len1: "length ?b1 = length buf" using fit1 by (rule length_blit)
  have fit2: "0 + nat (k - ?l) \<le> length ?b1" using assms len1 by auto
  have j: "nat j < length buf" using assms by auto
  have j1: "nat j < length ?b1" using j len1 by simp
  have "blit ?b1 0 ?ys ! nat j =
        (if 0 \<le> nat j \<and> nat j < 0 + nat (k - ?l) then ?ys ! (nat j - 0) else ?b1 ! nat j)"
    by (rule nth_blit_len[OF ly fit2 j1])
  then have "blit ?b1 0 ?ys ! nat j = (if nat j < nat (k - ?l) then ?ys ! nat j else ?b1 ! nat j)"
    by simp
  also have "?b1 ! nat j = (if nat m \<le> nat j then ?xs ! (nat j - nat m) else buf ! nat j)"
  proof -
    have "nat m + nat ?l \<le> length buf" using assms by auto
    from nth_blit_len[OF lx this j] show ?thesis using assms by auto
  qed
  finally have "blit ?b1 0 ?ys ! nat j =
     (if nat j < nat (k - ?l) then ?ys ! nat j
      else if nat m \<le> nat j then ?xs ! (nat j - nat m) else buf ! nat j)" .
  also have "\<dots> = (if (j - m) mod S < k then val ! nat ((j - m) mod S) else buf ! nat j)"
  proof (cases "m \<le> j")
    case True
    then have o: "(j - m) mod S = j - m" using assms by (simp add: circ_off)
    have a: "nat j - nat m < nat ?l" using True assms by linarith
    have x: "?xs ! (nat j - nat m) = val ! nat (j - m)"
      using a True assms by (simp add: nat_diff_distrib)
    have "\<not> nat j < nat (k - ?l)" "nat m \<le> nat j" "j - m < k" using True assms by linarith+
    then show ?thesis by (simp only: o x if_True if_False)
  next
    case False
    then have o: "(j - m) mod S = j - m + S" using assms by (simp add: circ_off)
    show ?thesis
    proof (cases "j < k - ?l")
      case True
      have e: "nat ?l + nat j = nat (j - m + S)" using assms by auto
      have "nat j < nat (k - ?l)" "j - m + S < k" using True assms by linarith+
      moreover have "?ys ! nat j = val ! nat (j - m + S)"
        using \<open>nat j < nat (k - ?l)\<close> assms e by simp
      ultimately show ?thesis by (simp only: o if_True)
    next
      case False
      with \<open>\<not> m \<le> j\<close> assms o show ?thesis by auto
    qed
  qed
  finally show ?thesis .
qed

lemma GetSpace_range: "rb_inv Size rb \<Longrightarrow> 0 \<le> GetSpace Size rb \<and> GetSpace Size rb \<le> Size - 1"
  by (auto simp: rb_inv_def GetSpace_def GetCount_def Let_def)

lemma GetCount_range: "rb_inv Size rb \<Longrightarrow> 0 \<le> GetCount Size rb \<and> GetCount Size rb \<le> Size - 1"
  by (auto simp: rb_inv_def GetCount_def Let_def)

lemma PushN_slots:
  assumes inv: "rb_inv Size rb" and n: "0 \<le> n" "n \<le> int (length val)"
      and k: "k = min n (GetSpace Size rb)"
      and B: "B = (if k \<le> Size - mIn rb
                   then blit (mBuffer rb) (nat (mIn rb)) (take (nat k) val)
                   else blit (blit (mBuffer rb) (nat (mIn rb)) (take (nat (Size - mIn rb)) val)) 0
                          (take (nat (k - (Size - mIn rb))) (drop (nat (Size - mIn rb)) val)))"
  shows "PushN Size rb val n = Some (k, rb\<lparr>mBuffer := B, mIn := (mIn rb + k) mod Size\<rparr>) \<and>
         length B = length (mBuffer rb) \<and>
         (\<forall>j. 0 \<le> j \<and> j < Size \<longrightarrow>
              B ! nat j = (if (j - mIn rb) mod Size < k then val ! nat ((j - mIn rb) mod Size)
                           else mBuffer rb ! nat j))"
proof -
  have sp: "0 \<le> GetSpace Size rb" "GetSpace Size rb \<le> Size - 1"
    using GetSpace_range[OF inv] by auto
  have k_bounds: "0 \<le> k" "k \<le> Size - 1" "k \<le> int (length val)" using k n sp by auto
  have cur: "int (length (mBuffer rb)) = Size" "0 \<le> mIn rb" "mIn rb < Size"
    using inv by (auto simp: rb_inv_def)
  consider (none) "k = 0" | (one) "0 < k" "k \<le> Size - mIn rb" | (two) "Size - mIn rb < k"
    using k_bounds by linarith
  then show ?thesis
  proof cases
    case none
    have B0: "B = mBuffer rb" using B none cur by (simp add: blit_def)
    have "mIn rb mod Size = mIn rb" using cur by simp
    then have same: "rb\<lparr>mBuffer := B, mIn := (mIn rb + k) mod Size\<rparr> = rb"
      using none B0 by simp
    have nonneg: "\<And>j. \<not> (j - mIn rb) mod Size < k" using cur none by (simp add: not_less)
    show ?thesis
      using PushN_none_left[OF inv n k none] same nonneg B0 by simp
  next
    case one
    have B1: "B = blit (mBuffer rb) (nat (mIn rb)) (take (nat k) val)" using B one by simp
    have "length (take (nat k) val) = nat k" using k_bounds by simp
    then have "length B = length (mBuffer rb)"
      unfolding B1 using cur one by (subst length_blit) auto
    moreover have "\<forall>j. 0 \<le> j \<and> j < Size \<longrightarrow>
        B ! nat j = (if (j - mIn rb) mod Size < k then val ! nat ((j - mIn rb) mod Size)
                      else mBuffer rb ! nat j)"
      unfolding B1 using one_range_nth[OF cur k_bounds(1) one(2) k_bounds(3)] by blast
    ultimately show ?thesis
      using PushN_one_range[OF inv n k one] B1 by simp
  next
    case two
    let ?l = "Size - mIn rb"
    let ?B1 = "blit (mBuffer rb) (nat (mIn rb)) (take (nat ?l) val)"
    let ?ys = "take (nat (k - ?l)) (drop (nat ?l) val)"
    have B2: "B = blit ?B1 0 ?ys" using B two by simp
    have "length (take (nat ?l) val) = nat ?l" using k_bounds two cur by simp
    then have l1: "length ?B1 = length (mBuffer rb)"
      using cur by (subst length_blit) auto
    have "length ?ys = nat (k - ?l)" using k_bounds two cur by simp
    then have "length B = length (mBuffer rb)"
      unfolding B2 using cur l1 k_bounds two by (subst length_blit) auto
    moreover have "\<forall>j. 0 \<le> j \<and> j < Size \<longrightarrow>
        B ! nat j = (if (j - mIn rb) mod Size < k then val ! nat ((j - mIn rb) mod Size)
                      else mBuffer rb ! nat j)"
      unfolding B2 using two_ranges_nth[OF cur two k_bounds(2) k_bounds(3)] by blast
    ultimately show ?thesis
      using PushN_two_ranges[OF inv n k two] B2 by simp
  qed
qed

lemma advance_in:
  assumes inv: "rb_inv Size rb" and k: "0 \<le> k" "k \<le> GetSpace Size rb"
      and len: "length B = length (mBuffer rb)"
  shows "rb_inv Size (rb\<lparr>mBuffer := B, mIn := (mIn rb + k) mod Size\<rparr>)"
    and "GetCount Size (rb\<lparr>mBuffer := B, mIn := (mIn rb + k) mod Size\<rparr>) = GetCount Size rb + k"
proof -
  let ?rb' = "rb\<lparr>mBuffer := B, mIn := (mIn rb + k) mod Size\<rparr>"
  have S: "0 < Size" using inv by (auto simp: rb_inv_def)
  show inv': "rb_inv Size ?rb'" using inv len S by (simp add: rb_inv_def)
  have c: "0 \<le> GetCount Size rb" using GetCount_range[OF inv] by simp
  have "GetCount Size ?rb' = ((mIn rb + k) mod Size - mOut rb) mod Size"
    using GetCount_mod[OF inv'] by simp
  also have "\<dots> = ((mIn rb - mOut rb) + k) mod Size"
    by (simp add: mod_diff_left_eq algebra_simps)
  also have "\<dots> = ((mIn rb - mOut rb) mod Size + k) mod Size"
    by (simp add: mod_add_left_eq)
  also have "\<dots> = (GetCount Size rb + k) mod Size"
    using GetCount_mod[OF inv] by simp
  also have "\<dots> = GetCount Size rb + k"
    using c k by (intro mod_pos_pos_trivial) (auto simp: GetSpace_def)
  finally show "GetCount Size ?rb' = GetCount Size rb + k" .
qed

lemma contents_append:
  assumes inv: "rb_inv Size rb" and k: "0 \<le> k" "k \<le> GetSpace Size rb" "k \<le> int (length val)"
      and len: "length B = length (mBuffer rb)"
      and slots: "\<forall>j. 0 \<le> j \<and> j < Size \<longrightarrow>
                  B ! nat j = (if (j - mIn rb) mod Size < k then val ! nat ((j - mIn rb) mod Size)
                               else mBuffer rb ! nat j)"
  shows "contents Size (rb\<lparr>mBuffer := B, mIn := (mIn rb + k) mod Size\<rparr>) =
         contents Size rb @ take (nat k) val"
proof (rule nth_equalityI)
  let ?rb' = "rb\<lparr>mBuffer := B, mIn := (mIn rb + k) mod Size\<rparr>"
  let ?c = "GetCount Size rb"
  have S: "0 < Size" using inv by (auto simp: rb_inv_def)
  have c: "0 \<le> ?c" using GetCount_range[OF inv] by simp
  have c': "GetCount Size ?rb' = ?c + k" by (rule advance_in(2)[OF inv k(1,2) len])
  show L: "length (contents Size ?rb') = length (contents Size rb @ take (nat k) val)"
    using c c' k by (simp add: contents_def nat_add_distrib)
  fix i assume "i < length (contents Size ?rb')"
  then have i: "int i < ?c + k" using c' by (simp add: contents_def)
  let ?j = "(mOut rb + int i) mod Size"
  have j: "0 \<le> ?j" "?j < Size" using S by simp_all
  have "(?j - mIn rb) mod Size = (mOut rb + int i - mIn rb) mod Size"
    by (simp add: mod_diff_left_eq)
  also have "\<dots> = (int i - (mIn rb - mOut rb)) mod Size" by (simp add: algebra_simps)
  also have "\<dots> = (int i - (mIn rb - mOut rb) mod Size) mod Size"
    by (simp add: mod_diff_right_eq)
  also have "\<dots> = (int i - ?c) mod Size" using GetCount_mod[OF inv] by simp
  finally have off: "(?j - mIn rb) mod Size = (int i - ?c) mod Size" .
  have B: "B ! nat ?j = (if (int i - ?c) mod Size < k then val ! nat ((int i - ?c) mod Size)
                         else mBuffer rb ! nat ?j)"
    using slots j off by simp
  have i': "i < nat (?c + k)" using i by linarith
  have lhs: "contents Size ?rb' ! i = B ! nat ?j"
    using i' c' by (simp add: contents_def)
  show "contents Size ?rb' ! i = (contents Size rb @ take (nat k) val) ! i"
  proof (cases "int i < ?c")
    case True
    have "0 \<le> int i - ?c + Size" "int i - ?c + Size < Size" using True c GetCount_range[OF inv] by auto
    then have "(int i - ?c + Size) mod Size = int i - ?c + Size" by (rule mod_pos_pos_trivial)
    then have "(int i - ?c) mod Size = int i - ?c + Size" by (simp only: mod_add_self2)
    then have "\<not> (int i - ?c) mod Size < k" using k by (simp add: GetSpace_def)
    then have "B ! nat ?j = mBuffer rb ! nat ?j" using B by simp
    moreover have "i < nat ?c" using True by linarith
    then have "(contents Size rb @ take (nat k) val) ! i = mBuffer rb ! nat ?j"
      by (simp add: contents_def nth_append)
    ultimately show ?thesis using lhs by simp
  next
    case False
    then have r: "0 \<le> int i - ?c" "int i - ?c < k" using i by auto
    then have "int i - ?c < Size" using k GetSpace_range[OF inv] by auto
    with r have m: "(int i - ?c) mod Size = int i - ?c" by simp
    then have "B ! nat ?j = val ! nat (int i - ?c)" using B r by simp
    moreover have "(contents Size rb @ take (nat k) val) ! i = val ! nat (int i - ?c)"
    proof -
      have "length (contents Size rb) = nat ?c" by (simp add: contents_def)
      moreover have "\<not> i < nat ?c" using False c by linarith
      moreover have "i - nat ?c = nat (int i - ?c)" using c by linarith
      moreover have "nat (int i - ?c) < nat k" using r by linarith
      ultimately show ?thesis by (simp add: nth_append)
    qed
    ultimately show ?thesis using lhs by simp
  qed
qed

lemma PushN_effect:
  assumes "rb_inv Size rb" and "n = int (length items)" and "k = min n (GetSpace Size rb)"
  shows "\<exists>rb'. PushN Size rb items n = Some (k, rb') \<and>
           mBuffer rb' =
             (if k \<le> Size - mIn rb
              then blit (mBuffer rb) (nat (mIn rb)) (take (nat k) items)
              else blit (blit (mBuffer rb) (nat (mIn rb)) (take (nat (Size - mIn rb)) items)) 0
                     (take (nat (k - (Size - mIn rb))) (drop (nat (Size - mIn rb)) items))) \<and>
           (\<forall>j. 0 \<le> j \<and> j < Size \<longrightarrow>
              mBuffer rb' ! nat j =
                (if (j - mIn rb) mod Size < k then items ! nat ((j - mIn rb) mod Size)
                 else mBuffer rb ! nat j)) \<and>
           mIn rb' = (mIn rb + k) mod Size \<and> mOut rb' = mOut rb \<and> rb_inv Size rb' \<and>
           GetCount Size rb' = GetCount Size rb + k \<and>
           contents Size rb' = contents Size rb @ take (nat k) items"
proof -
  let ?B = "if k \<le> Size - mIn rb
            then blit (mBuffer rb) (nat (mIn rb)) (take (nat k) items)
            else blit (blit (mBuffer rb) (nat (mIn rb)) (take (nat (Size - mIn rb)) items)) 0
                   (take (nat (k - (Size - mIn rb))) (drop (nat (Size - mIn rb)) items))"
  let ?rb' = "rb\<lparr>mBuffer := ?B, mIn := (mIn rb + k) mod Size\<rparr>"
  have n: "0 \<le> n" "n \<le> int (length items)" using assms(2) by simp_all
  have k: "0 \<le> k" "k \<le> GetSpace Size rb" "k \<le> int (length items)"
    using assms(3) n GetSpace_range[OF assms(1)] by auto
  note s = PushN_slots[OF assms(1) n assms(3) refl]
  from s have run: "PushN Size rb items n = Some (k, ?rb')" by blast
  from s have len: "length ?B = length (mBuffer rb)" by blast
  from s have slots: "\<forall>j. 0 \<le> j \<and> j < Size \<longrightarrow>
       ?B ! nat j = (if (j - mIn rb) mod Size < k then items ! nat ((j - mIn rb) mod Size)
                     else mBuffer rb ! nat j)" by blast
  have "rb_inv Size ?rb'" "GetCount Size ?rb' = GetCount Size rb + k"
    using advance_in[OF assms(1) k(1,2) len] by blast+
  moreover have "contents Size ?rb' = contents Size rb @ take (nat k) items"
    by (rule contents_append[OF assms(1) k len slots])
  ultimately show ?thesis using run slots by (intro exI[of _ ?rb']) simp
qed

section \<open>What one push and one pop do to the queue\<close>

lemma Push_ok:
  assumes inv: "rb_inv Size rb" and sp: "GetSpace Size rb > 0"
  shows "Push Size rb v =
         Some (True, rb\<lparr>mBuffer := (mBuffer rb)[nat (mIn rb) := v], mIn := (mIn rb + 1) mod Size\<rparr>)"
proof -
  have "wrap Size (mIn rb + 1) = (mIn rb + 1) mod Size"
    using inv by (intro wrap_mod) (auto simp: rb_inv_def)
  then show ?thesis using inv sp by (simp add: Push_def arr_set_def rb_inv_def)
qed

lemma Push_full: "GetSpace Size rb = 0 \<Longrightarrow> Push Size rb v = Some (False, rb)"
  by (simp add: Push_def)

lemma Push_effect:
  assumes inv: "rb_inv Size rb" and sp: "GetSpace Size rb > 0"
  shows "\<exists>rb'. Push Size rb v = Some (True, rb') \<and> rb_inv Size rb' \<and>
               GetCount Size rb' = GetCount Size rb + 1 \<and>
               contents Size rb' = contents Size rb @ [v]"
proof -
  let ?B = "(mBuffer rb)[nat (mIn rb) := v]"
  let ?rb' = "rb\<lparr>mBuffer := ?B, mIn := (mIn rb + 1) mod Size\<rparr>"
  have cur: "int (length (mBuffer rb)) = Size" "0 \<le> mIn rb" "mIn rb < Size"
    using inv by (auto simp: rb_inv_def)
  have k: "(0::int) \<le> 1" "1 \<le> GetSpace Size rb" "1 \<le> int (length [v])" using sp by auto
  have len: "length ?B = length (mBuffer rb)" by simp
  have slots: "\<forall>j. 0 \<le> j \<and> j < Size \<longrightarrow>
      ?B ! nat j = (if (j - mIn rb) mod Size < 1 then [v] ! nat ((j - mIn rb) mod Size)
                    else mBuffer rb ! nat j)"
  proof (intro allI impI)
    fix j :: int assume j: "0 \<le> j \<and> j < Size"
    then have off: "(j - mIn rb) mod Size = (if mIn rb \<le> j then j - mIn rb else j - mIn rb + Size)"
      using cur by (intro circ_off) auto
    show "?B ! nat j = (if (j - mIn rb) mod Size < 1 then [v] ! nat ((j - mIn rb) mod Size)
                        else mBuffer rb ! nat j)"
    proof (cases "j = mIn rb")
      case True
      then show ?thesis using cur by simp
    next
      case False
      then have "\<not> (j - mIn rb) mod Size < 1" using off j cur by auto
      moreover have "nat j \<noteq> nat (mIn rb)" using False j cur by auto
      ultimately show ?thesis by simp
    qed
  qed
  have "rb_inv Size ?rb'" "GetCount Size ?rb' = GetCount Size rb + 1"
    using advance_in[OF inv k(1,2) len] by blast+
  moreover have "contents Size ?rb' = contents Size rb @ take (nat 1) [v]"
    by (rule contents_append[OF inv k len slots])
  ultimately show ?thesis using Push_ok[OF inv sp] by simp
qed

lemma advance_out:
  assumes inv: "rb_inv Size rb"
  shows "rb_inv Size (rb\<lparr>mOut := wrap Size (mOut rb + 1)\<rparr>)"
    and "GetCount Size (rb\<lparr>mOut := wrap Size (mOut rb + 1)\<rparr>) =
         (if GetCount Size rb = 0 then Size - 1 else GetCount Size rb - 1)"
  using inv by (auto simp: rb_inv_def wrap_def GetCount_def Let_def)

lemma contents_length: "rb_inv Size rb \<Longrightarrow> int (length (contents Size rb)) = GetCount Size rb"
  using GetCount_range[of Size rb] by (simp add: contents_def)

lemma contents_pop:
  assumes inv: "rb_inv Size rb" and c: "GetCount Size rb \<noteq> 0"
  shows "contents Size rb = mBuffer rb ! nat (mOut rb) # contents Size (rb\<lparr>mOut := wrap Size (mOut rb + 1)\<rparr>)"
proof (rule nth_equalityI)
  let ?rb' = "rb\<lparr>mOut := wrap Size (mOut rb + 1)\<rparr>"
  have cur: "0 < Size" "0 \<le> mOut rb" "mOut rb < Size" using inv by (auto simp: rb_inv_def)
  have c0: "0 < GetCount Size rb" using c GetCount_range[OF inv] by auto
  have c': "GetCount Size ?rb' = GetCount Size rb - 1" using advance_out(2)[OF inv] c by simp
  show "length (contents Size rb) = length (mBuffer rb ! nat (mOut rb) # contents Size ?rb')"
    using c0 c' by (simp add: contents_def)
  fix i assume "i < length (contents Size rb)"
  then have i: "i < nat (GetCount Size rb)" by (simp add: contents_def)
  have w: "wrap Size (mOut rb + 1) = (mOut rb + 1) mod Size"
    using cur by (intro wrap_mod) auto
  show "contents Size rb ! i = (mBuffer rb ! nat (mOut rb) # contents Size ?rb') ! i"
  proof (cases i)
    case 0
    then show ?thesis using i cur by (simp add: contents_def)
  next
    case (Suc m)
    then have m: "m < nat (GetCount Size ?rb')" using i c' by linarith
    have "((mOut rb + 1) mod Size + int m) mod Size = (mOut rb + 1 + int m) mod Size"
      by (rule mod_add_left_eq)
    also have "mOut rb + 1 + int m = mOut rb + int (Suc m)" by simp
    finally have "((mOut rb + 1) mod Size + int m) mod Size = (mOut rb + int (Suc m)) mod Size" .
    then show ?thesis using Suc i m w by (simp add: contents_def)
  qed
qed

lemma arr_get_out: "rb_inv Size rb \<Longrightarrow> arr_get (mBuffer rb) (mOut rb) = Some (mBuffer rb ! nat (mOut rb))"
  by (simp add: arr_get_def rb_inv_def)

lemma GetNext_eq:
  "rb_inv Size rb \<Longrightarrow>
   GetNext Size rb = Some (mBuffer rb ! nat (mOut rb), rb\<lparr>mOut := wrap Size (mOut rb + 1)\<rparr>)"
  by (simp add: GetNext_def arr_get_out)

lemma GetNext_ptr_eq:
  "rb_inv Size rb \<Longrightarrow>
   GetNext_ptr Size rb v =
     (if GetCount Size rb \<noteq> 0
      then Some (True, mBuffer rb ! nat (mOut rb), rb\<lparr>mOut := wrap Size (mOut rb + 1)\<rparr>)
      else Some (False, v, rb))"
  by (simp add: GetNext_ptr_def arr_get_out)

lemma GetNext_ptr_effect:
  assumes inv: "rb_inv Size rb" and c: "contents Size rb = x # xs"
  shows "\<exists>rb'. GetNext_ptr Size rb v = Some (True, x, rb') \<and> GetNext Size rb = Some (x, rb') \<and>
               rb_inv Size rb' \<and> contents Size rb' = xs \<and> GetCount Size rb' = GetCount Size rb - 1 \<and>
               mIn rb' = mIn rb \<and> mBuffer rb' = mBuffer rb"
proof -
  let ?rb' = "rb\<lparr>mOut := wrap Size (mOut rb + 1)\<rparr>"
  have n0: "GetCount Size rb \<noteq> 0" using contents_length[OF inv] c by auto
  from contents_pop[OF inv n0] c have "x = mBuffer rb ! nat (mOut rb)" "contents Size ?rb' = xs"
    by simp_all
  moreover have "rb_inv Size ?rb'" "GetCount Size ?rb' = GetCount Size rb - 1"
    using advance_out[OF inv] n0 by simp_all
  ultimately show ?thesis
    using GetNext_ptr_eq[OF inv, of v] GetNext_eq[OF inv] n0 by (intro exI[of _ ?rb']) simp
qed

lemma push_all_effect:
  "rb_inv Size rb \<Longrightarrow> int (length xs) \<le> GetSpace Size rb \<Longrightarrow>
   \<exists>rb'. push_all Size rb xs = Some (replicate (length xs) True, rb') \<and> rb_inv Size rb' \<and>
         GetCount Size rb' = GetCount Size rb + int (length xs) \<and>
         contents Size rb' = contents Size rb @ xs"
proof (induction xs arbitrary: rb)
  case Nil
  then show ?case by simp
next
  case (Cons x xs)
  from Cons.prems have sp: "GetSpace Size rb > 0" by simp
  from Push_effect[OF Cons.prems(1) sp, of x] obtain rb1 where
    p: "Push Size rb x = Some (True, rb1)" "rb_inv Size rb1"
       "GetCount Size rb1 = GetCount Size rb + 1" "contents Size rb1 = contents Size rb @ [x]"
    by blast
  have "int (length xs) \<le> GetSpace Size rb1" using Cons.prems(2) p(3) by (simp add: GetSpace_def)
  from Cons.IH[OF p(2) this] obtain rb' where
    r: "push_all Size rb1 xs = Some (replicate (length xs) True, rb')" "rb_inv Size rb'"
       "GetCount Size rb' = GetCount Size rb1 + int (length xs)"
       "contents Size rb' = contents Size rb1 @ xs"
    by blast
  show ?case using p r by simp
qed

lemma call_inv:
  assumes inv: "rb_inv Size rb"
  shows "\<exists>rb'. call Size rb c = Some rb' \<and> rb_inv Size rb'"
proof (cases c)
  case (CallPush v)
  show ?thesis
  proof (cases "GetSpace Size rb > 0")
    case True
    from Push_effect[OF inv True, of v] show ?thesis using CallPush by auto
  next
    case False
    then have "GetSpace Size rb = 0" using GetSpace_range[OF inv] by simp
    then show ?thesis using CallPush inv by (simp add: Push_full)
  qed
next
  case (CallPushN vs)
  from PushN_effect[OF inv refl refl, of vs] show ?thesis using CallPushN by auto
next
  case CallGetNext
  then show ?thesis using GetNext_eq[OF inv] advance_out(1)[OF inv] by simp
next
  case (CallGetNext_ptr v)
  show ?thesis
  proof (cases "GetCount Size rb = 0")
    case True
    then show ?thesis using CallGetNext_ptr GetNext_ptr_eq[OF inv, of v] inv by simp
  next
    case False
    then show ?thesis
      using CallGetNext_ptr GetNext_ptr_eq[OF inv, of v] advance_out(1)[OF inv] by simp
  qed
next
  case CallNextOut
  then show ?thesis using advance_out(1)[OF inv] inv by (simp add: NextOut_def)
next
  case CallClear
  then show ?thesis using inv by (simp add: Clear_def rb_inv_def)
qed

lemma calls_inv:
  "rb_inv Size rb \<Longrightarrow> \<exists>rb'. calls Size rb cs = Some rb' \<and> rb_inv Size rb'"
proof (induction cs arbitrary: rb)
  case Nil
  then show ?case by simp
next
  case (Cons c cs)
  from call_inv[OF Cons.prems, of c] obtain rb1 where "call Size rb c = Some rb1" "rb_inv Size rb1"
    by blast
  then show ?case using Cons.IH[of rb1] by simp
qed

lemma rb_inv_new: "0 < Size \<Longrightarrow> int (length buf0) = Size \<Longrightarrow> rb_inv Size (RingBufferSized_new buf0)"
  by (simp add: rb_inv_def RingBufferSized_new_def)

lemma calls_example:
  "calls 4 (RingBufferSized_new [0, 0, 0, 0 :: nat])
            [CallPush 1, CallPushN [2, 3, 4], CallGetNext, CallGetNext_ptr 0, CallPush 5,
             CallNextOut, CallGetNext, CallGetNext] = Some \<lparr>mBuffer = [1, 2, 3, 5], mIn = 0, mOut = 1\<rparr>"
  by code_simp

section \<open>What the packet writes put on the stream\<close>

lemma length_object_bytes: "length (object_bytes e n w) = n"
  by (cases e) (simp_all add: object_bytes_def)

lemma bytes32:
  "(ucast (ucast (w :: 32 word) :: 8 word) OR
    push_bit 8 (ucast (ucast (drop_bit 8 w) :: 8 word) OR
    push_bit 8 (ucast (ucast (drop_bit 16 w) :: 8 word) OR
    push_bit 8 (ucast (ucast (drop_bit 24 w) :: 8 word) OR push_bit 8 0)))) = w"
proof (rule bit_word_eqI)
  fix n assume "n < LENGTH(32)"
  then consider "n < 8" | "8 \<le> n" "n < 16" | "16 \<le> n" "n < 24" | "24 \<le> n" "n < 32"
    by fastforce
  then show "bit (ucast (ucast w :: 8 word) OR
    push_bit 8 (ucast (ucast (drop_bit 8 w) :: 8 word) OR
    push_bit 8 (ucast (ucast (drop_bit 16 w) :: 8 word) OR
    push_bit 8 (ucast (ucast (drop_bit 24 w) :: 8 word) OR push_bit 8 0))) :: 32 word) n = bit w n"
  proof cases
    case 1
    then show ?thesis by (simp add: bit_simps)
  next
    case 2
    then have "n - 8 < 8" by simp
    with 2 show ?thesis by (simp add: bit_simps)
  next
    case 3
    then show ?thesis by (auto simp: bit_simps)
  next
    case 4
    then have "24 + (n - 24) = n" by simp
    with 4 show ?thesis by (auto simp: bit_simps)
  qed
qed

lemma bytes16:
  "(ucast (ucast (w :: 16 word) :: 8 word) OR
    push_bit 8 (ucast (ucast (drop_bit 8 w) :: 8 word) OR push_bit 8 0)) = w"
proof (rule bit_word_eqI)
  fix n assume "n < LENGTH(16)"
  then consider "n < 8" | "8 \<le> n" "n < 16" by fastforce
  then show "bit (ucast (ucast w :: 8 word) OR
    push_bit 8 (ucast (ucast (drop_bit 8 w) :: 8 word) OR push_bit 8 0) :: 16 word) n = bit w n"
  proof cases
    case 1
    then show ?thesis by (simp add: bit_simps)
  next
    case 2
    then have "n - 8 < 8" by simp
    with 2 show ?thesis by (simp add: bit_simps)
  qed
qed

lemma value_of_object_bytes32: "value_of_bytes e (object_bytes e 4 (w :: 32 word)) = w"
  using bytes32[of w] by (cases e) (simp_all add: value_of_bytes_def object_bytes_def upt_rec)

lemma value_of_object_bytes16: "value_of_bytes e (object_bytes e 2 (w :: 16 word)) = w"
  using bytes16[of w] by (cases e) (simp_all add: value_of_bytes_def object_bytes_def upt_rec)

lemma take_concat_rows:
  "\<forall>x \<in> set xs. length (f x) = m \<Longrightarrow> take (n * m) (concat (map f xs)) = concat (map f (take n xs))"
proof (induction xs arbitrary: n)
  case Nil
  then show ?case by simp
next
  case (Cons x xs)
  show ?case
  proof (cases n)
    case 0
    then show ?thesis by simp
  next
    case (Suc k)
    with Cons show ?thesis by simp
  qed
qed

lemma length_concat_rows:
  "\<forall>x \<in> set xs. length (f x) = m \<Longrightarrow> length (concat (map f xs)) = length xs * m"
  by (induction xs) simp_all

lemma row_bytes:
  "int (length row) = kADCChannels \<Longrightarrow> length (concat (map (object_bytes e 2) row)) = 4"
  using length_concat_rows[of row "object_bytes e 2" 2]
  by (simp add: length_object_bytes kADCChannels_def)

lemma LatestUSBFrameTimePacket_write_eq:
  "LatestUSBFrameTimePacket_write e
     (LatestUSBFrameTimePacket_new tick32us timeRequestNumber frameNumber latestFrameus) stream c =
   (15, stream @ [0x50, 0xA0, 0x4C, c, timeRequestNumber] @ object_bytes e 4 tick32us @
          object_bytes e 2 frameNumber @ object_bytes e 4 latestFrameus, c + 1)"
  by (simp add: LatestUSBFrameTimePacket_write_def LatestUSBFrameTimePacket_new_def
      LatestUSBFrameTimePacket_sHeaderAndPacketType_def TimePacket_new_def writeData_def
      stream_write_def stream_write_byte_def length_object_bytes
      TimePacket.extend_def LatestUSBFrameTimePacket.fields_def)

lemma TimePacket_write_eq:
  "TimePacket_write e (TimePacket_new tick32us timeRequestNumber) stream c =
   (9, stream @ [0x50, 0xA0, 0x4E, c, timeRequestNumber] @ object_bytes e 4 tick32us, c + 1)"
  by (simp add: TimePacket_write_def TimePacket_sHeaderAndPacketType_def TimePacket_new_def
      writeData_def stream_write_def stream_write_byte_def length_object_bytes)

lemma payload_size_eq:
  "0 \<le> gN \<Longrightarrow> gN \<le> kPointsPerMediumSizePacket \<Longrightarrow> payload_size gN = 4 * gN"
  by (simp add: payload_size_def kADCChannels_def kPointsPerMediumSizePacket_def)

lemma Packet_rows:
  "Packet_inv p \<Longrightarrow> \<forall>row \<in> set (Packet.mData p). length (concat (map (object_bytes e 2) row)) = 4"
  by (auto simp: Packet_inv_def list_all_iff row_bytes)

lemma Packet_write_eq:
  assumes inv: "Packet_inv p" and gN: "0 \<le> gN" "gN \<le> kPointsPerMediumSizePacket"
  shows "Packet_write e gN p stream c =
         Some (4 + 4 * gN,
               stream @ [0x50, 0xA0, if gN = 1 then 0x44 else 0x4D, c] @
                 concat (map (\<lambda>row. concat (map (object_bytes e 2) row)) (take (nat gN) (Packet.mData p))),
               c + 1)"
proof -
  let ?f = "\<lambda>row. concat (map (object_bytes e 2) row)"
  let ?obj = "concat (map ?f (Packet.mData p))"
  have rows: "\<forall>row \<in> set (Packet.mData p). length (?f row) = 4" by (rule Packet_rows[OF inv])
  have len: "length ?obj = 40"
    using length_concat_rows[OF rows] inv by (simp add: Packet_inv_def kPointsPerMediumSizePacket_def)
  have tk: "take (nat (4 * gN)) ?obj = concat (map ?f (take (nat gN) (Packet.mData p)))"
  proof -
    have "nat (4 * gN) = nat gN * 4" using gN by simp
    then show ?thesis using take_concat_rows[OF rows, of "nat gN"] by simp
  qed
  have lp: "length (concat (map ?f (take (nat gN) (Packet.mData p)))) = nat gN * 4"
  proof -
    have "\<forall>row \<in> set (take (nat gN) (Packet.mData p)). length (?f row) = 4"
      using rows by (meson in_set_takeD)
    moreover have "length (take (nat gN) (Packet.mData p)) = nat gN"
      using inv gN by (auto simp: Packet_inv_def)
    ultimately show ?thesis using length_concat_rows[of "take (nat gN) (Packet.mData p)" ?f 4]
      by simp
  qed
  have rd: "read_object ?obj (payload_size gN) = Some (concat (map ?f (take (nat gN) (Packet.mData p))))"
    using gN len tk by (simp add: read_object_def payload_size_eq kPointsPerMediumSizePacket_def)
  have "int (nat gN * 4) = 4 * gN" using gN by simp
  then show ?thesis
    using rd lp by (simp add: Packet_write_def sHeader_def stream_write_def stream_write_byte_def)
qed

lemma addSample_ok:
  assumes inv: "Packet_inv p" and pt: "mPoint p < gN" "gN \<le> kPointsPerMediumSizePacket"
      and ch: "0 \<le> chan" "chan < kADCChannels"
  shows "addSample gN p chan v =
         Some (True, p\<lparr>Packet.mData := (Packet.mData p)[nat (mPoint p) :=
                                          (Packet.mData p ! nat (mPoint p))[nat chan := v]]\<rparr>)"
proof -
  have i: "0 \<le> mPoint p" "mPoint p < int (length (Packet.mData p))"
    using inv pt by (auto simp: Packet_inv_def)
  then have "Packet.mData p ! nat (mPoint p) \<in> set (Packet.mData p)" by simp
  then have "int (length (Packet.mData p ! nat (mPoint p))) = kADCChannels"
    using inv by (auto simp: Packet_inv_def list_all_iff)
  then show ?thesis using i pt ch by (simp add: addSample_def arr_get_def arr_set_def)
qed

lemma addSample_full: "gN \<le> mPoint p \<Longrightarrow> addSample gN p chan v = Some (False, p)"
  by (simp add: addSample_def)

lemma addSample_inv:
  assumes inv: "Packet_inv p"
  shows "Packet_inv (p\<lparr>Packet.mData := (Packet.mData p)[i := (Packet.mData p ! i)[j := v]]\<rparr>)"
proof -
  have "\<forall>row \<in> set (Packet.mData p). int (length row) = kADCChannels"
    using inv by (simp add: Packet_inv_def list_all_iff)
  then have "\<forall>row \<in> set ((Packet.mData p)[i := (Packet.mData p ! i)[j := v]]). int (length row) = kADCChannels"
    by (metis (no_types, lifting) in_set_conv_nth length_list_update nth_list_update_eq nth_list_update_neq nth_mem)
  then show ?thesis using inv by (simp add: Packet_inv_def list_all_iff)
qed

lemma scenario_rows:
  assumes inv: "Packet_inv p" and pt: "mPoint p = 0"
  shows "\<exists>p1 p2. addSample 1 p 0 x = Some (True, p1) \<and> addSample 1 p1 1 y = Some (True, p2) \<and>
                 Packet_inv p2 \<and> take 1 (Packet.mData p2) = [[x, y]]"
proof -
  let ?row = "Packet.mData p ! 0"
  let ?p1 = "p\<lparr>Packet.mData := (Packet.mData p)[0 := ?row[0 := x]]\<rparr>"
  let ?p2 = "p\<lparr>Packet.mData := (Packet.mData p)[0 := ?row[0 := x, 1 := y]]\<rparr>"
  have len: "length (Packet.mData p) = 10"
    using inv by (simp add: Packet_inv_def kPointsPerMediumSizePacket_def)
  then have "?row \<in> set (Packet.mData p)" by simp
  then have "length ?row = 2" using inv by (auto simp: Packet_inv_def list_all_iff kADCChannels_def)
  then obtain u w where row: "?row = [u, w]"
    by (metis (no_types, opaque_lifting) One_nat_def Suc_1 length_0_conv length_Suc_conv)
  have k: "(1::int) \<le> kPointsPerMediumSizePacket" "(0::int) < kADCChannels" "(1::int) < kADCChannels"
    by (simp_all add: kPointsPerMediumSizePacket_def kADCChannels_def)
  have a1: "addSample 1 p 0 x = Some (True, ?p1)"
    using addSample_ok[OF inv _ k(1) _ k(2), of x] pt by simp
  have inv1: "Packet_inv ?p1" by (rule addSample_inv[OF inv])
  have a2: "addSample 1 ?p1 1 y = Some (True, ?p2)"
    using addSample_ok[OF inv1 _ k(1) _ k(3), of y] pt len by simp
  have "Packet_inv ?p2" using addSample_inv[OF inv1, of 0 1 y] len by simp
  moreover have "take 1 (Packet.mData ?p2) = [[x, y]]"
  proof -
    obtain r rs where "Packet.mData p = r # rs" using len by (cases "Packet.mData p") auto
    then show ?thesis using row by simp
  qed
  ultimately show ?thesis using a1 a2 by blast
qed

lemma write_any_seq:
  assumes gN: "0 \<le> gN" "gN \<le> kPointsPerMediumSizePacket"
      and wf: "\<forall>d. p = Data d \<longrightarrow> Packet_inv d"
  shows "\<exists>n bs. write_any e gN p stream c = Some (n, stream @ bs, c + 1) \<and>
                4 \<le> length bs \<and> take 2 bs = [0x50, 0xA0] \<and> bs ! 3 = c"
proof (cases p)
  case (Data d)
  then have "Packet_inv d" using wf by simp
  from Packet_write_eq[OF this gN, of e stream c] show ?thesis using Data by simp
next
  case (Time t)
  then show ?thesis
    by (simp add: TimePacket_write_def TimePacket_sHeaderAndPacketType_def writeData_def
        stream_write_def stream_write_byte_def)
next
  case (FirstSampleTime f)
  then show ?thesis
    by (simp add: FirstSampleTimePacket_write_def FirstSampleTimePacket_sHeaderAndPacketType_def
        stream_write_def stream_write_byte_def)
next
  case (LatestUSBFrameTime l)
  then show ?thesis
    by (simp add: LatestUSBFrameTimePacket_write_def LatestUSBFrameTimePacket_sHeaderAndPacketType_def
        writeData_def stream_write_def stream_write_byte_def)
qed

lemma write_all_seq:
  assumes gN: "0 \<le> gN" "gN \<le> kPointsPerMediumSizePacket"
  shows "\<forall>d. Data d \<in> set ps \<longrightarrow> Packet_inv d \<Longrightarrow>
         \<exists>chunks. write_all e gN ps stream c = Some (chunks, stream @ concat chunks, c + of_nat (length ps)) \<and>
                  length chunks = length ps \<and>
                  (\<forall>i < length ps. 4 \<le> length (chunks ! i) \<and> take 2 (chunks ! i) = [0x50, 0xA0] \<and>
                                    chunks ! i ! 3 = c + of_nat i)"
proof (induction ps arbitrary: stream c)
  case Nil
  then show ?case by simp
next
  case (Cons p ps)
  have "\<forall>d. p = Data d \<longrightarrow> Packet_inv d" using Cons.prems by simp
  from write_any_seq[OF gN this, of e stream c] obtain n bs where
    w: "write_any e gN p stream c = Some (n, stream @ bs, c + 1)"
       "4 \<le> length bs" "take 2 bs = [0x50, 0xA0]" "bs ! 3 = c" by blast
  have "\<forall>d. Data d \<in> set ps \<longrightarrow> Packet_inv d" using Cons.prems by simp
  from Cons.IH[OF this, of "stream @ bs" "c + 1"] obtain chunks where
    r: "write_all e gN ps (stream @ bs) (c + 1) =
          Some (chunks, (stream @ bs) @ concat chunks, c + 1 + of_nat (length ps))"
       "length chunks = length ps"
       "\<forall>i < length ps. 4 \<le> length (chunks ! i) \<and> take 2 (chunks ! i) = [0x50, 0xA0] \<and>
                         chunks ! i ! 3 = c + 1 + of_nat i" by blast
  have run: "write_all e gN (p # ps) stream c =
        Some (bs # chunks, stream @ concat (bs # chunks), c + of_nat (length (p # ps)))"
    using w(1) r(1) by (simp add: emitted_def add.assoc add.commute)
  have each: "\<forall>i < length (p # ps). 4 \<le> length ((bs # chunks) ! i) \<and>
                 take 2 ((bs # chunks) ! i) = [0x50, 0xA0] \<and> (bs # chunks) ! i ! 3 = c + of_nat i"
  proof (intro allI impI)
    fix i assume "i < length (p # ps)"
    then show "4 \<le> length ((bs # chunks) ! i) \<and> take 2 ((bs # chunks) ! i) = [0x50, 0xA0] \<and>
               (bs # chunks) ! i ! 3 = c + of_nat i"
      using w(2,3,4) r(3) by (cases i) (simp_all add: add.assoc)
  qed
  show ?case using run each r(2) by (intro exI[of _ "bs # chunks"]) simp
qed

lemma unat_count: "unat (c + of_nat i :: 8 word) = (unat c + i) mod 256"
proof -
  have "unat (c + of_nat i :: 8 word) = (unat c + unat (of_nat i :: 8 word)) mod 256"
    by (simp add: unat_word_ariths)
  also have "\<dots> = (unat c + i mod 256) mod 256" by (simp add: unat_of_nat)
  also have "\<dots> = (unat c + i) mod 256" by (rule mod_add_right_eq)
  finally show ?thesis .
qed

section \<open>Bulk push\<close>

text \<open>
  Claim C3. In every state that satisfies the class invariant, the bulk push of an array
  \<open>items\<close> of \<open>n\<close> elements returns \<open>k = min n (GetSpace Size rb)\<close> and stores exactly
  the first \<open>k\<close> elements of the array, in array order: the queue the buffer stands for
  grows by \<open>take k items\<close> at its end, and \<open>GetCount\<close> grows by exactly \<open>k\<close>. So with
  \<open>GetSpace Size rb = s < n\<close> the call returns \<open>s\<close>. The array after the call is the old one
  with one contiguous range written at the write cursor when the \<open>k\<close> elements fit before
  the end of the array, and otherwise with two: the slots from the write cursor to the
  end, then the rest from slot 0 on. Slot \<open>j\<close> holds \<open>items ! ((j - mIn) mod Size)\<close> when that
  offset is below \<open>k\<close> and is unchanged otherwise; the read cursor is unchanged.
\<close>

theorem PushN_bulk:
  assumes "rb_inv Size rb" and "n = int (length items)" and "k = min n (GetSpace Size rb)"
  shows "\<exists>rb'. PushN Size rb items n = Some (k, rb') \<and>
           mBuffer rb' =
             (if k \<le> Size - mIn rb
              then blit (mBuffer rb) (nat (mIn rb)) (take (nat k) items)
              else blit (blit (mBuffer rb) (nat (mIn rb)) (take (nat (Size - mIn rb)) items)) 0
                     (take (nat (k - (Size - mIn rb))) (drop (nat (Size - mIn rb)) items))) \<and>
           (\<forall>j. 0 \<le> j \<and> j < Size \<longrightarrow>
              mBuffer rb' ! nat j =
                (if (j - mIn rb) mod Size < k then items ! nat ((j - mIn rb) mod Size)
                 else mBuffer rb ! nat j)) \<and>
           mIn rb' = (mIn rb + k) mod Size \<and> mOut rb' = mOut rb \<and> rb_inv Size rb' \<and>
           GetCount Size rb' = GetCount Size rb + k \<and>
           contents Size rb' = contents Size rb @ take (nat k) items"
  by (rule PushN_effect[OF assms])

theorem PushN_bulk_witness:
  "rb_inv 4 \<lparr>mBuffer = [10, 11, 12, 13 :: nat], mIn = 3, mOut = 2\<rparr> \<and>
   (4 :: int) = int (length [7, 8, 9, 10 :: nat]) \<and>
   (2 :: int) = min 4 (GetSpace 4 \<lparr>mBuffer = [10, 11, 12, 13 :: nat], mIn = 3, mOut = 2\<rparr>) \<and>
   (\<exists>rb'. PushN 4 \<lparr>mBuffer = [10, 11, 12, 13 :: nat], mIn = 3, mOut = 2\<rparr> [7, 8, 9, 10] 4 = Some (2, rb') \<and>
          mBuffer rb' = [8, 11, 12, 7] \<and> mIn rb' = 1 \<and> mOut rb' = 2 \<and>
          GetCount 4 rb' = 3 \<and> contents 4 rb' = [12, 7, 8])"
proof -
  let ?rb = "\<lparr>mBuffer = [10, 11, 12, 13 :: nat], mIn = 3, mOut = 2\<rparr>"
  have h1: "rb_inv 4 ?rb" by (simp add: rb_inv_def)
  have h2: "(4 :: int) = int (length [7, 8, 9, 10 :: nat])" by simp
  have h3: "(2 :: int) = min 4 (GetSpace 4 ?rb)" by (simp add: GetSpace_def GetCount_def)
  have c: "GetCount 4 ?rb = 1" by (simp add: GetCount_def)
  have cs: "contents 4 ?rb = [12]" by (simp add: contents_def c)
  from PushN_bulk[OF h1 h2 h3] obtain rb' where
    r: "PushN 4 ?rb [7, 8, 9, 10] 4 = Some (2, rb')"
       "mBuffer rb' =
             (if 2 \<le> 4 - mIn ?rb
              then blit (mBuffer ?rb) (nat (mIn ?rb)) (take (nat 2) [7, 8, 9, 10])
              else blit (blit (mBuffer ?rb) (nat (mIn ?rb)) (take (nat (4 - mIn ?rb)) [7, 8, 9, 10])) 0
                     (take (nat (2 - (4 - mIn ?rb))) (drop (nat (4 - mIn ?rb)) [7, 8, 9, 10])))"
       "mIn rb' = (mIn ?rb + 2) mod 4" "mOut rb' = mOut ?rb"
       "GetCount 4 rb' = GetCount 4 ?rb + 2"
       "contents 4 rb' = contents 4 ?rb @ take (nat 2) [7, 8, 9, 10]"
    by blast
  have "mBuffer rb' = [8, 11, 12, 7]" using r(2) by (simp add: blit_def)
  moreover have "contents 4 rb' = [12, 7, 8]" using r(6) cs by (simp add: numeral_2_eq_2)
  moreover have "mIn rb' = 1" "mOut rb' = 2" "GetCount 4 rb' = 3" using r(3,4,5) c by simp_all
  ultimately show ?thesis using h1 h2 h3 r(1) by blast
qed

section \<open>The count stays in range\<close>

text \<open>
  Claim C1. For every capacity \<open>Size \<ge> 2\<close> and every sequence \<open>cs\<close> of calls of the single
  push, the bulk push, the pop in both forms, the skip and the clear, run from the
  freshly constructed buffer: every call is defined, and in the state reached
  \<open>0 \<le> GetCount \<le> Size - 1\<close> and \<open>GetCount + GetSpace = Size - 1\<close>, where \<open>GetCount\<close> is
  determined by the two cursors alone: it is \<open>(mIn - mOut) mod Size\<close>.
\<close>

theorem count_invariant:
  assumes "2 \<le> Size" and "int (length buf0) = Size"
  shows "\<exists>rb. calls Size (RingBufferSized_new buf0) cs = Some rb \<and>
              0 \<le> GetCount Size rb \<and> GetCount Size rb \<le> Size - 1 \<and>
              GetCount Size rb + GetSpace Size rb = Size - 1 \<and>
              GetCount Size rb = (mIn rb - mOut rb) mod Size"
proof -
  have "rb_inv Size (RingBufferSized_new buf0)" using assms by (intro rb_inv_new) auto
  from calls_inv[OF this, of cs] obtain rb where
    rb: "calls Size (RingBufferSized_new buf0) cs = Some rb" "rb_inv Size rb" by blast
  show ?thesis
    using rb GetCount_range[OF rb(2)] GetCount_mod[OF rb(2)] by (simp add: GetSpace_def)
qed

theorem count_invariant_witness:
  "(2 :: int) \<le> 4 \<and> int (length [0, 0, 0, 0 :: nat]) = 4 \<and>
   (\<exists>rb. calls 4 (RingBufferSized_new [0, 0, 0, 0 :: nat])
            [CallPush 1, CallPushN [2, 3, 4], CallGetNext, CallGetNext_ptr 0, CallPush 5,
             CallNextOut, CallGetNext, CallGetNext] = Some rb \<and>
         0 \<le> GetCount 4 rb \<and> GetCount 4 rb \<le> 4 - 1 \<and>
         GetCount 4 rb + GetSpace 4 rb = 4 - 1 \<and>
         GetCount 4 rb = (mIn rb - mOut rb) mod 4)"
proof -
  have h1: "(2 :: int) \<le> 4" by simp
  have h2: "int (length [0, 0, 0, 0 :: nat]) = 4" by simp
  from count_invariant[OF h1 h2] h1 h2 show ?thesis by blast
qed

section \<open>Single push\<close>

text \<open>
  Claim C2. In every state that satisfies the class invariant: with \<open>GetSpace > 0\<close> the
  single push writes the item into the slot at the write cursor, advances the write cursor
  by one modulo \<open>Size\<close>, changes nothing else and returns true; with \<open>GetSpace = 0\<close> it
  returns false and the state is the one before the call. So on an empty buffer the pushes
  of any \<open>Size - 1\<close> items \<open>xs\<close> all return true, and one more push returns false and leaves
  the state as it is.
\<close>

theorem Push_single:
  assumes "rb_inv Size rb"
  shows "(GetSpace Size rb > 0 \<longrightarrow>
            Push Size rb item =
              Some (True, rb\<lparr>mBuffer := (mBuffer rb)[nat (mIn rb) := item],
                              mIn := (mIn rb + 1) mod Size\<rparr>)) \<and>
         (GetSpace Size rb = 0 \<longrightarrow> Push Size rb item = Some (False, rb)) \<and>
         (GetCount Size rb = 0 \<and> int (length xs) = Size - 1 \<longrightarrow>
            (\<exists>rb'. push_all Size rb xs = Some (replicate (length xs) True, rb') \<and>
                   Push Size rb' item = Some (False, rb')))"
proof (intro conjI impI)
  assume "GetSpace Size rb > 0"
  then show "Push Size rb item =
      Some (True, rb\<lparr>mBuffer := (mBuffer rb)[nat (mIn rb) := item], mIn := (mIn rb + 1) mod Size\<rparr>)"
    by (rule Push_ok[OF assms])
next
  assume "GetSpace Size rb = 0"
  then show "Push Size rb item = Some (False, rb)" by (rule Push_full)
next
  assume a: "GetCount Size rb = 0 \<and> int (length xs) = Size - 1"
  then have "int (length xs) \<le> GetSpace Size rb" by (simp add: GetSpace_def)
  from push_all_effect[OF assms this] obtain rb' where
    r: "push_all Size rb xs = Some (replicate (length xs) True, rb')"
       "GetCount Size rb' = GetCount Size rb + int (length xs)" by blast
  then have "GetSpace Size rb' = 0" using a by (simp add: GetSpace_def)
  then have "Push Size rb' item = Some (False, rb')" by (rule Push_full)
  with r(1) show "\<exists>rb'. push_all Size rb xs = Some (replicate (length xs) True, rb') \<and>
                        Push Size rb' item = Some (False, rb')" by blast
qed

theorem Push_single_witness:
  "rb_inv 3 \<lparr>mBuffer = [0, 0, 0 :: nat], mIn = 0, mOut = 0\<rparr> \<and>
   GetSpace 3 \<lparr>mBuffer = [0, 0, 0 :: nat], mIn = 0, mOut = 0\<rparr> > 0 \<and>
   Push 3 \<lparr>mBuffer = [0, 0, 0 :: nat], mIn = 0, mOut = 0\<rparr> 9 =
     Some (True, \<lparr>mBuffer = [9, 0, 0], mIn = 1, mOut = 0\<rparr>) \<and>
   GetCount 3 \<lparr>mBuffer = [0, 0, 0 :: nat], mIn = 0, mOut = 0\<rparr> = 0 \<and>
   int (length [7, 8 :: nat]) = 3 - 1 \<and>
   (\<exists>rb'. push_all 3 \<lparr>mBuffer = [0, 0, 0 :: nat], mIn = 0, mOut = 0\<rparr> [7, 8] =
            Some (replicate (length [7, 8 :: nat]) True, rb') \<and>
          Push 3 rb' 9 = Some (False, rb')) \<and>
   rb_inv 3 \<lparr>mBuffer = [7, 8, 0 :: nat], mIn = 2, mOut = 0\<rparr> \<and>
   GetSpace 3 \<lparr>mBuffer = [7, 8, 0 :: nat], mIn = 2, mOut = 0\<rparr> = 0 \<and>
   Push 3 \<lparr>mBuffer = [7, 8, 0 :: nat], mIn = 2, mOut = 0\<rparr> 9 =
     Some (False, \<lparr>mBuffer = [7, 8, 0 :: nat], mIn = 2, mOut = 0\<rparr>)"
proof -
  let ?e = "\<lparr>mBuffer = [0, 0, 0 :: nat], mIn = 0, mOut = 0\<rparr>"
  let ?f = "\<lparr>mBuffer = [7, 8, 0 :: nat], mIn = 2, mOut = 0\<rparr>"
  have e: "rb_inv 3 ?e" by (simp add: rb_inv_def)
  have f: "rb_inv 3 ?f" by (simp add: rb_inv_def)
  have se: "GetSpace 3 ?e > 0" "GetCount 3 ?e = 0" by (simp_all add: GetSpace_def GetCount_def)
  have sf: "GetSpace 3 ?f = 0" by (simp add: GetSpace_def GetCount_def)
  have l: "int (length [7, 8 :: nat]) = 3 - 1" by simp
  from Push_single[OF e, of 9 "[7, 8]"] se l
  have "Push 3 ?e 9 = Some (True, \<lparr>mBuffer = [9, 0, 0], mIn = 1, mOut = 0\<rparr>)"
    and "\<exists>rb'. push_all 3 ?e [7, 8] = Some (replicate (length [7, 8 :: nat]) True, rb') \<and>
              Push 3 rb' 9 = Some (False, rb')"
    by simp_all
  moreover from Push_single[OF f, of 9 "[]"] sf have "Push 3 ?f 9 = Some (False, ?f)" by blast
  ultimately show ?thesis using e f se sf l by blast
qed

section \<open>First in, first out\<close>

text \<open>
  Claim C4. On every empty buffer of capacity at least 2, a push of \<open>x\<close> succeeds and the
  pop that follows returns exactly \<open>x\<close>, in the checked and in the unchecked form, and
  leaves \<open>GetCount = 0\<close>. On every empty buffer of capacity 4, wherever its cursors
  stand: the pushes of \<open>a\<close>, \<open>b\<close>, \<open>c\<close> succeed, a pop returns \<open>a\<close>, the push of \<open>d\<close>
  succeeds, and three more pops return \<open>b\<close>, \<open>c\<close>, \<open>d\<close> in this order and leave the
  buffer empty.
\<close>

theorem fifo_order:
  assumes "rb_inv Size rb" and "2 \<le> Size" and "GetCount Size rb = 0"
  shows "(\<exists>rb1 rb2. Push Size rb x = Some (True, rb1) \<and>
                     GetNext_ptr Size rb1 v = Some (True, x, rb2) \<and>
                     GetNext Size rb1 = Some (x, rb2) \<and>
                     GetCount Size rb2 = 0) \<and>
         (Size = 4 \<longrightarrow>
            do {
              (pushed, rb1) \<leftarrow> push_all Size rb [a, b, c];
              (ok1, x1, rb2) \<leftarrow> GetNext_ptr Size rb1 v;
              (ok2, rb3) \<leftarrow> Push Size rb2 d;
              (ok3, x2, rb4) \<leftarrow> GetNext_ptr Size rb3 v;
              (ok4, x3, rb5) \<leftarrow> GetNext_ptr Size rb4 v;
              (ok5, x4, rb6) \<leftarrow> GetNext_ptr Size rb5 v;
              Some (pushed, (ok1, x1), ok2, [(ok3, x2), (ok4, x3), (ok5, x4)], GetCount Size rb6)
            } = Some ([True, True, True], (True, a), True, [(True, b), (True, c), (True, d)], 0))"
proof (intro conjI impI)
  have e: "contents Size rb = []" using assms(3) by (simp add: contents_def)
  have sp: "GetSpace Size rb > 0" using assms(2,3) by (simp add: GetSpace_def)
  from Push_effect[OF assms(1) sp, of x] obtain rb1 where
    p: "Push Size rb x = Some (True, rb1)" "rb_inv Size rb1"
       "GetCount Size rb1 = GetCount Size rb + 1" "contents Size rb1 = contents Size rb @ [x]"
    by blast
  from GetNext_ptr_effect[OF p(2), of x "[]" v] p(4) e obtain rb2 where
    g: "GetNext_ptr Size rb1 v = Some (True, x, rb2)" "GetNext Size rb1 = Some (x, rb2)"
       "GetCount Size rb2 = GetCount Size rb1 - 1"
    by auto
  show "\<exists>rb1 rb2. Push Size rb x = Some (True, rb1) \<and> GetNext_ptr Size rb1 v = Some (True, x, rb2) \<and>
                   GetNext Size rb1 = Some (x, rb2) \<and> GetCount Size rb2 = 0"
    using p(1,3) g assms(3) by auto
next
  assume S: "Size = 4"
  have e: "contents Size rb = []" using assms(3) by (simp add: contents_def)
  have "int (length [a, b, c]) \<le> GetSpace Size rb" using S assms(3) by (simp add: GetSpace_def)
  from push_all_effect[OF assms(1) this] e obtain rb1 where
    s1: "push_all Size rb [a, b, c] = Some ([True, True, True], rb1)" "rb_inv Size rb1"
        "contents Size rb1 = [a, b, c]" "GetCount Size rb1 = 3"
    using assms(3) by (auto simp: numeral_3_eq_3)
  from GetNext_ptr_effect[OF s1(2,3), of v] obtain rb2 where
    s2: "GetNext_ptr Size rb1 v = Some (True, a, rb2)" "rb_inv Size rb2"
        "contents Size rb2 = [b, c]" "GetCount Size rb2 = 2"
    using s1(4) by auto
  have "GetSpace Size rb2 > 0" using S s2(4) by (simp add: GetSpace_def)
  from Push_effect[OF s2(2) this, of d] obtain rb3 where
    s3: "Push Size rb2 d = Some (True, rb3)" "rb_inv Size rb3" "contents Size rb3 = [b, c, d]"
        "GetCount Size rb3 = 3"
    using s2(3,4) by auto
  from GetNext_ptr_effect[OF s3(2,3), of v] obtain rb4 where
    s4: "GetNext_ptr Size rb3 v = Some (True, b, rb4)" "rb_inv Size rb4"
        "contents Size rb4 = [c, d]" "GetCount Size rb4 = 2"
    using s3(4) by auto
  from GetNext_ptr_effect[OF s4(2,3), of v] obtain rb5 where
    s5: "GetNext_ptr Size rb4 v = Some (True, c, rb5)" "rb_inv Size rb5"
        "contents Size rb5 = [d]" "GetCount Size rb5 = 1"
    using s4(4) by auto
  from GetNext_ptr_effect[OF s5(2,3), of v] obtain rb6 where
    s6: "GetNext_ptr Size rb5 v = Some (True, d, rb6)" "GetCount Size rb6 = 0"
    using s5(4) by auto
  show "do {
              (pushed, rb1) \<leftarrow> push_all Size rb [a, b, c];
              (ok1, x1, rb2) \<leftarrow> GetNext_ptr Size rb1 v;
              (ok2, rb3) \<leftarrow> Push Size rb2 d;
              (ok3, x2, rb4) \<leftarrow> GetNext_ptr Size rb3 v;
              (ok4, x3, rb5) \<leftarrow> GetNext_ptr Size rb4 v;
              (ok5, x4, rb6) \<leftarrow> GetNext_ptr Size rb5 v;
              Some (pushed, (ok1, x1), ok2, [(ok3, x2), (ok4, x3), (ok5, x4)], GetCount Size rb6)
            } = Some ([True, True, True], (True, a), True, [(True, b), (True, c), (True, d)], 0)"
    by (simp add: s1(1) s2(1) s3(1) s4(1) s5(1) s6 del: push_all.simps)
qed

theorem fifo_order_witness:
  "rb_inv 4 \<lparr>mBuffer = [0, 0, 0, 0 :: nat], mIn = 0, mOut = 0\<rparr> \<and> (2 :: int) \<le> 4 \<and>
   GetCount 4 \<lparr>mBuffer = [0, 0, 0, 0 :: nat], mIn = 0, mOut = 0\<rparr> = 0 \<and>
   (\<exists>rb1 rb2. Push 4 \<lparr>mBuffer = [0, 0, 0, 0 :: nat], mIn = 0, mOut = 0\<rparr> 5 = Some (True, rb1) \<and>
              GetNext_ptr 4 rb1 0 = Some (True, 5, rb2) \<and> GetNext 4 rb1 = Some (5, rb2) \<and>
              GetCount 4 rb2 = 0) \<and>
   do {
     (pushed, rb1) \<leftarrow> push_all 4 \<lparr>mBuffer = [0, 0, 0, 0 :: nat], mIn = 0, mOut = 0\<rparr> [1, 2, 3];
     (ok1, x1, rb2) \<leftarrow> GetNext_ptr 4 rb1 0;
     (ok2, rb3) \<leftarrow> Push 4 rb2 4;
     (ok3, x2, rb4) \<leftarrow> GetNext_ptr 4 rb3 0;
     (ok4, x3, rb5) \<leftarrow> GetNext_ptr 4 rb4 0;
     (ok5, x4, rb6) \<leftarrow> GetNext_ptr 4 rb5 0;
     Some (pushed, (ok1, x1), ok2, [(ok3, x2), (ok4, x3), (ok5, x4)], GetCount 4 rb6)
   } = Some ([True, True, True], (True, 1), True, [(True, 2), (True, 3), (True, 4)], 0)"
proof -
  let ?rb = "\<lparr>mBuffer = [0, 0, 0, 0 :: nat], mIn = 0, mOut = 0\<rparr>"
  have h1: "rb_inv 4 ?rb" by (simp add: rb_inv_def)
  have h2: "(2 :: int) \<le> 4" by simp
  have h3: "GetCount 4 ?rb = 0" by (simp add: GetCount_def)
  from fifo_order[OF h1 h2 h3, of 5 0 1 2 3 4] h1 h2 h3 show ?thesis by simp
qed

section \<open>Popping from an empty buffer\<close>

text \<open>
  Claim C10. On an empty buffer the unchecked pop \<open>GetNext\<close> returns the element that
  lies at the read cursor and advances the read cursor by one modulo \<open>Size\<close>, leaving the
  array and the write cursor alone; after it \<open>GetCount\<close> is \<open>Size - 1\<close>. The checked pop
  \<open>GetNext_ptr\<close> and the skip \<open>NextOut\<close> return false on the same state and leave it, and
  the caller's variable, unchanged.
\<close>

theorem GetNext_on_empty:
  assumes "rb_inv Size rb" and "GetCount Size rb = 0"
  shows "\<exists>rb'. GetNext Size rb = Some (mBuffer rb ! nat (mOut rb), rb') \<and>
               mOut rb' = (mOut rb + 1) mod Size \<and> mIn rb' = mIn rb \<and> mBuffer rb' = mBuffer rb \<and>
               GetCount Size rb' = Size - 1 \<and>
               GetNext_ptr Size rb v = Some (False, v, rb) \<and>
               NextOut Size rb = (False, rb)"
proof -
  let ?rb' = "rb\<lparr>mOut := wrap Size (mOut rb + 1)\<rparr>"
  have "wrap Size (mOut rb + 1) = (mOut rb + 1) mod Size"
    using assms(1) by (intro wrap_mod) (auto simp: rb_inv_def)
  moreover have "GetCount Size ?rb' = Size - 1" using advance_out(2)[OF assms(1)] assms(2) by simp
  ultimately show ?thesis
    using GetNext_eq[OF assms(1)] GetNext_ptr_eq[OF assms(1), of v] assms(2)
    by (intro exI[of _ ?rb']) (simp add: NextOut_def)
qed

theorem GetNext_on_empty_witness:
  "rb_inv 4 \<lparr>mBuffer = [10, 11, 12, 13 :: nat], mIn = 3, mOut = 3\<rparr> \<and>
   GetCount 4 \<lparr>mBuffer = [10, 11, 12, 13 :: nat], mIn = 3, mOut = 3\<rparr> = 0 \<and>
   GetNext 4 \<lparr>mBuffer = [10, 11, 12, 13 :: nat], mIn = 3, mOut = 3\<rparr> =
     Some (13, \<lparr>mBuffer = [10, 11, 12, 13], mIn = 3, mOut = 0\<rparr>) \<and>
   GetCount 4 \<lparr>mBuffer = [10, 11, 12, 13 :: nat], mIn = 3, mOut = 0\<rparr> = 3 \<and>
   GetNext_ptr 4 \<lparr>mBuffer = [10, 11, 12, 13 :: nat], mIn = 3, mOut = 3\<rparr> 0 =
     Some (False, 0, \<lparr>mBuffer = [10, 11, 12, 13], mIn = 3, mOut = 3\<rparr>) \<and>
   NextOut 4 \<lparr>mBuffer = [10, 11, 12, 13 :: nat], mIn = 3, mOut = 3\<rparr> =
     (False, \<lparr>mBuffer = [10, 11, 12, 13], mIn = 3, mOut = 3\<rparr>)"
proof -
  let ?rb = "\<lparr>mBuffer = [10, 11, 12, 13 :: nat], mIn = 3, mOut = 3\<rparr>"
  have h1: "rb_inv 4 ?rb" by (simp add: rb_inv_def)
  have h2: "GetCount 4 ?rb = 0" by (simp add: GetCount_def)
  from GetNext_on_empty[OF h1 h2, of 0] obtain rb' where
    r: "GetNext 4 ?rb = Some (mBuffer ?rb ! nat (mOut ?rb), rb')"
       "mOut rb' = (mOut ?rb + 1) mod 4" "mIn rb' = mIn ?rb" "mBuffer rb' = mBuffer ?rb"
       "GetCount 4 rb' = 4 - 1"
       "GetNext_ptr 4 ?rb 0 = Some (False, 0, ?rb)" "NextOut 4 ?rb = (False, ?rb)"
    by blast
  have "rb' = \<lparr>mBuffer = [10, 11, 12, 13], mIn = 3, mOut = 0\<rparr>" using r(2,3,4) by simp
  then show ?thesis using h1 h2 r by (simp add: numeral_3_eq_3 GetCount_def)
qed

section \<open>Clear\<close>

text \<open>
  Claim C5. In every buffer state, \<open>Clear\<close> sets the read cursor to the write cursor, so
  that \<open>GetCount\<close> is 0 afterwards, and changes nothing else: the write cursor and the
  whole backing array are as before. No condition on the state or on \<open>Size\<close> is needed.
\<close>

theorem Clear_frame:
  "mOut (Clear rb) = mIn rb \<and> GetCount Size (Clear rb) = 0 \<and>
   mIn (Clear rb) = mIn rb \<and> mBuffer (Clear rb) = mBuffer rb"
  by (simp add: Clear_def GetCount_def)

section \<open>The sequence byte\<close>

text \<open>
  Claim C6. Let any list \<open>ps\<close> of packets of the four classes be written one after the
  other, with a points-per-packet setting that the storage of a data packet can hold. Every
  write is defined and adds at least four bytes to the stream. The fourth byte that the
  \<open>i\<close>-th write adds, the sequence byte, is the value that the one packet counter holds
  after the first \<open>i\<close> writes, that is before this write increments it: \<open>c + i\<close> in 8-bit
  arithmetic, where \<open>c\<close> is the counter before the first write. The sequence byte of each
  write is that of the write before plus one modulo 256, whatever the classes of the two
  packets. After \<open>ResetPacketCount\<close> the bytes are \<open>0, 1, 2, \<dots>\<close> modulo 256.
\<close>

theorem sequence_bytes:
  assumes "0 \<le> gN" and "gN \<le> kPointsPerMediumSizePacket"
      and "\<forall>d. Data d \<in> set ps \<longrightarrow> Packet_inv d"
  shows "\<exists>chunks.
           write_all e gN ps stream c =
             Some (chunks, stream @ concat chunks, c + of_nat (length ps)) \<and>
           length chunks = length ps \<and>
           (\<forall>i < length ps.
              4 \<le> length (chunks ! i) \<and> chunks ! i ! 3 = c + of_nat i \<and>
              unat (chunks ! i ! 3) = (unat c + i) mod 256 \<and>
              (\<exists>before s. write_all e gN (take i ps) stream c = Some (before, s, chunks ! i ! 3))) \<and>
           (\<forall>i. Suc i < length ps \<longrightarrow>
              chunks ! Suc i ! 3 = chunks ! i ! 3 + 1 \<and>
              unat (chunks ! Suc i ! 3) = (unat (chunks ! i ! 3) + 1) mod 256) \<and>
           (c = ResetPacketCount c0 \<longrightarrow>
              (\<forall>i < length ps. chunks ! i ! 3 = of_nat i \<and> unat (chunks ! i ! 3) = i mod 256))"
proof -
  from write_all_seq[OF assms, of e stream c] obtain chunks where
    r: "write_all e gN ps stream c = Some (chunks, stream @ concat chunks, c + of_nat (length ps))"
       "length chunks = length ps"
       "\<forall>i < length ps. 4 \<le> length (chunks ! i) \<and> take 2 (chunks ! i) = [0x50, 0xA0] \<and>
                         chunks ! i ! 3 = c + of_nat i" by blast
  have pre: "\<forall>i < length ps. \<exists>before s. write_all e gN (take i ps) stream c = Some (before, s, chunks ! i ! 3)"
  proof (intro allI impI)
    fix i assume i: "i < length ps"
    have "\<forall>d. Data d \<in> set (take i ps) \<longrightarrow> Packet_inv d"
      using assms(3) by (meson in_set_takeD)
    from write_all_seq[OF assms(1,2) this, of e stream c] i r(3)
    show "\<exists>before s. write_all e gN (take i ps) stream c = Some (before, s, chunks ! i ! 3)"
      by (auto simp: min_def)
  qed
  have each: "\<forall>i < length ps.
              4 \<le> length (chunks ! i) \<and> chunks ! i ! 3 = c + of_nat i \<and>
              unat (chunks ! i ! 3) = (unat c + i) mod 256 \<and>
              (\<exists>before s. write_all e gN (take i ps) stream c = Some (before, s, chunks ! i ! 3))"
    using r(3) pre by (simp add: unat_count)
  have step: "\<forall>i. Suc i < length ps \<longrightarrow>
              chunks ! Suc i ! 3 = chunks ! i ! 3 + 1 \<and>
              unat (chunks ! Suc i ! 3) = (unat (chunks ! i ! 3) + 1) mod 256"
  proof (intro allI impI)
    fix i assume i: "Suc i < length ps"
    then have a: "chunks ! Suc i ! 3 = c + of_nat (Suc i)" "chunks ! i ! 3 = c + of_nat i"
      using r(3) by auto
    then have b: "chunks ! Suc i ! 3 = chunks ! i ! 3 + 1" by simp
    have "unat (chunks ! i ! 3 + 1) = (unat (chunks ! i ! 3) + 1) mod 256"
      using unat_count[of "chunks ! i ! 3" 1] by simp
    with b show "chunks ! Suc i ! 3 = chunks ! i ! 3 + 1 \<and>
              unat (chunks ! Suc i ! 3) = (unat (chunks ! i ! 3) + 1) mod 256" by simp
  qed
  have reset: "c = ResetPacketCount c0 \<longrightarrow>
              (\<forall>i < length ps. chunks ! i ! 3 = of_nat i \<and> unat (chunks ! i ! 3) = i mod 256)"
    using r(3) by (simp add: ResetPacketCount_def unat_of_nat)
  show ?thesis using r(1,2) each step reset by blast
qed

theorem sequence_bytes_witness:
  "let ps = [Time (TimePacket_new 0x01020304 9),
             FirstSampleTime (FirstSampleTimePacket_new 5),
             Data (Packet_new (replicate 10 [1, 2])),
             LatestUSBFrameTime (LatestUSBFrameTimePacket_new 1 2 3 4)]
   in (0 :: int) \<le> 1 \<and> (1 :: int) \<le> kPointsPerMediumSizePacket \<and>
      (\<forall>d. Data d \<in> set ps \<longrightarrow> Packet_inv d) \<and>
      write_all LittleEndian 1 ps [] 255 =
        Some ([[0x50, 0xA0, 0x4E, 255, 9, 4, 3, 2, 1],
               [0x50, 0xA0, 0x46, 0, 5, 0, 0, 0],
               [0x50, 0xA0, 0x44, 1, 1, 0, 2, 0],
               [0x50, 0xA0, 0x4C, 2, 2, 1, 0, 0, 0, 3, 0, 4, 0, 0, 0]],
              [0x50, 0xA0, 0x4E, 255, 9, 4, 3, 2, 1] @ [0x50, 0xA0, 0x46, 0, 5, 0, 0, 0] @
              [0x50, 0xA0, 0x44, 1, 1, 0, 2, 0] @
              [0x50, 0xA0, 0x4C, 2, 2, 1, 0, 0, 0, 3, 0, 4, 0, 0, 0],
              3) \<and>
      (\<exists>chunks.
         write_all LittleEndian 1 ps [] 255 =
           Some (chunks, [] @ concat chunks, 255 + of_nat (length ps)) \<and>
         (\<forall>i. Suc i < length ps \<longrightarrow>
              chunks ! Suc i ! 3 = chunks ! i ! 3 + 1 \<and>
              unat (chunks ! Suc i ! 3) = (unat (chunks ! i ! 3) + 1) mod 256))"
proof -
  let ?ps = "[Time (TimePacket_new 0x01020304 9),
              FirstSampleTime (FirstSampleTimePacket_new 5),
              Data (Packet_new (replicate 10 [1, 2])),
              LatestUSBFrameTime (LatestUSBFrameTimePacket_new 1 2 3 4)]"
  have h1: "(0 :: int) \<le> 1" by simp
  have h2: "(1 :: int) \<le> kPointsPerMediumSizePacket" by (simp add: kPointsPerMediumSizePacket_def)
  have h3: "\<forall>d. Data d \<in> set ?ps \<longrightarrow> Packet_inv d"
    by (simp add: Packet_inv_def Packet_new_def kPointsPerMediumSizePacket_def kADCChannels_def
        list_all_iff)
  have ev: "write_all LittleEndian 1 ?ps [] 255 =
   Some ([[0x50, 0xA0, 0x4E, 255, 9, 4, 3, 2, 1],
          [0x50, 0xA0, 0x46, 0, 5, 0, 0, 0],
          [0x50, 0xA0, 0x44, 1, 1, 0, 2, 0],
          [0x50, 0xA0, 0x4C, 2, 2, 1, 0, 0, 0, 3, 0, 4, 0, 0, 0]],
         [0x50, 0xA0, 0x4E, 255, 9, 4, 3, 2, 1] @ [0x50, 0xA0, 0x46, 0, 5, 0, 0, 0] @
         [0x50, 0xA0, 0x44, 1, 1, 0, 2, 0] @ [0x50, 0xA0, 0x4C, 2, 2, 1, 0, 0, 0, 3, 0, 4, 0, 0, 0],
         3)"
    by code_simp
  from sequence_bytes[OF h1 h2 h3, of LittleEndian "[]" 255]
  have "\<exists>chunks.
         write_all LittleEndian 1 ?ps [] 255 =
           Some (chunks, [] @ concat chunks, 255 + of_nat (length ?ps)) \<and>
         (\<forall>i. Suc i < length ?ps \<longrightarrow>
              chunks ! Suc i ! 3 = chunks ! i ! 3 + 1 \<and>
              unat (chunks ! Suc i ! 3) = (unat (chunks ! i ! 3) + 1) mod 256)"
    by blast
  with h1 h2 h3 ev show ?thesis unfolding Let_def by blast
qed

section \<open>The data packet on the wire\<close>

text \<open>
  Claim C7. With \<open>N\<close> points per packet, \<open>1 \<le> N \<le> kPointsPerMediumSizePacket\<close>, the
  \<open>write\<close> of a data packet adds to the stream the two bytes of the header, the type byte
  \<open>D\<close> (0x44) when \<open>N = 1\<close> and \<open>M\<close> (0x4D) when \<open>N > 1\<close>, the sequence byte, and the
  payload: the samples of the first \<open>N\<close> points, point after point and channel after
  channel within a point, two bytes each, \<open>N * kADCChannels * 2\<close> bytes in all. It
  returns the number of bytes written, 4 plus the length of the payload. For a fresh
  packet with one point per packet, after \<open>addSample 0 100\<close> and \<open>addSample 1 (-50)\<close> the
  write emits 8 bytes: header, \<open>D\<close>, sequence byte, the two bytes of 100, the two bytes of
  -50; on the little-endian target these are 0x64 0x00 and 0xCE 0xFF.
\<close>

theorem Packet_write_layout:
  assumes "Packet_inv p" and "1 \<le> N" and "N \<le> kPointsPerMediumSizePacket"
  shows "\<exists>payload.
           Packet_write e N p stream c =
             Some (4 + int (length payload),
                   stream @ [0x50, 0xA0, if N = 1 then 0x44 else 0x4D, c] @ payload, c + 1) \<and>
           payload = concat (map (\<lambda>row. concat (map (object_bytes e 2) row))
                                 (take (nat N) (Packet.mData p))) \<and>
           int (length payload) = N * kADCChannels * 2 \<and>
           (N = 1 \<and> mPoint p = 0 \<longrightarrow>
              do {
                (ok1, p1) \<leftarrow> addSample N p 0 100;
                (ok2, p2) \<leftarrow> addSample N p1 1 (- 50);
                (n, stream', c') \<leftarrow> Packet_write e N p2 stream c;
                Some (ok1, ok2, n, emitted stream stream')
              } = Some (True, True, 8,
                        [0x50, 0xA0, 0x44, c] @ object_bytes e 2 (100 :: 16 word) @
                        object_bytes e 2 (- 50 :: 16 word)) \<and>
              object_bytes LittleEndian 2 (100 :: 16 word) = [0x64, 0x00] \<and>
              object_bytes LittleEndian 2 (- 50 :: 16 word) = [0xCE, 0xFF])"
proof -
  let ?f = "\<lambda>row. concat (map (object_bytes e 2) row)"
  let ?payload = "concat (map ?f (take (nat N) (Packet.mData p)))"
  have N0: "0 \<le> N" using assms(2) by simp
  have rows: "\<forall>row \<in> set (take (nat N) (Packet.mData p)). length (?f row) = 4"
    using Packet_rows[OF assms(1)] by (meson in_set_takeD)
  have "length (take (nat N) (Packet.mData p)) = nat N"
    using assms by (auto simp: Packet_inv_def)
  then have len: "int (length ?payload) = 4 * N"
    using length_concat_rows[OF rows] N0 by simp
  have w: "Packet_write e N p stream c =
             Some (4 + int (length ?payload),
                   stream @ [0x50, 0xA0, if N = 1 then 0x44 else 0x4D, c] @ ?payload, c + 1)"
    using Packet_write_eq[OF assms(1) N0 assms(3)] len by simp
  have sc: "N = 1 \<and> mPoint p = 0 \<longrightarrow>
              do {
                (ok1, p1) \<leftarrow> addSample N p 0 100;
                (ok2, p2) \<leftarrow> addSample N p1 1 (- 50);
                (n, stream', c') \<leftarrow> Packet_write e N p2 stream c;
                Some (ok1, ok2, n, emitted stream stream')
              } = Some (True, True, 8,
                        [0x50, 0xA0, 0x44, c] @ object_bytes e 2 (100 :: 16 word) @
                        object_bytes e 2 (- 50 :: 16 word)) \<and>
              object_bytes LittleEndian 2 (100 :: 16 word) = [0x64, 0x00] \<and>
              object_bytes LittleEndian 2 (- 50 :: 16 word) = [0xCE, 0xFF]"
  proof (intro impI conjI)
    assume a: "N = 1 \<and> mPoint p = 0"
    from scenario_rows[OF assms(1), of 100 "- 50"] a obtain p1 p2 where
      s: "addSample 1 p 0 100 = Some (True, p1)" "addSample 1 p1 1 (- 50) = Some (True, p2)"
         "Packet_inv p2" "take 1 (Packet.mData p2) = [[100, - 50]]"
      by blast
    have "Packet_write e 1 p2 stream c =
          Some (8, stream @ [0x50, 0xA0, 0x44, c] @ object_bytes e 2 (100 :: 16 word) @
                     object_bytes e 2 (- 50 :: 16 word), c + 1)"
      using Packet_write_eq[OF s(3), of 1 e stream c] s(4)
      by (simp add: kPointsPerMediumSizePacket_def)
    then show "do {
                (ok1, p1) \<leftarrow> addSample N p 0 100;
                (ok2, p2) \<leftarrow> addSample N p1 1 (- 50);
                (n, stream', c') \<leftarrow> Packet_write e N p2 stream c;
                Some (ok1, ok2, n, emitted stream stream')
              } = Some (True, True, 8,
                        [0x50, 0xA0, 0x44, c] @ object_bytes e 2 (100 :: 16 word) @
                        object_bytes e 2 (- 50 :: 16 word))"
      using a s(1,2) by (simp add: emitted_def)
  next
    show "object_bytes LittleEndian 2 (100 :: 16 word) = [0x64, 0x00]"
      by (simp add: object_bytes_def upt_rec)
    show "object_bytes LittleEndian 2 (- 50 :: 16 word) = [0xCE, 0xFF]"
      by (simp add: object_bytes_def upt_rec)
  qed
  show ?thesis
    using w len sc by (intro exI[of _ ?payload]) (simp add: kADCChannels_def)
qed

theorem Packet_write_layout_witness:
  "Packet_inv (Packet_new (replicate 10 [0, 0])) \<and> (1 :: int) \<le> 1 \<and>
   (1 :: int) \<le> kPointsPerMediumSizePacket \<and> mPoint (Packet_new (replicate 10 [0, 0])) = 0 \<and>
   do {
     (ok1, p1) \<leftarrow> addSample 1 (Packet_new (replicate 10 [0, 0])) 0 100;
     (ok2, p2) \<leftarrow> addSample 1 p1 1 (- 50);
     (n, stream', c') \<leftarrow> Packet_write LittleEndian 1 p2 [] 7;
     Some (ok1, ok2, n, emitted [] stream')
   } = Some (True, True, 8, [0x50, 0xA0, 0x44, 7, 0x64, 0x00, 0xCE, 0xFF]) \<and>
   Packet_inv \<lparr>mPoint = 2, mData = [[100, - 50], [1, 2]] @ replicate 8 [0, 0]\<rparr> \<and>
   (1 :: int) \<le> 2 \<and> (2 :: int) \<le> kPointsPerMediumSizePacket \<and>
   (\<exists>payload.
      Packet_write BigEndian 2 \<lparr>mPoint = 2, mData = [[100, - 50], [1, 2]] @ replicate 8 [0, 0]\<rparr> [] 255 =
        Some (4 + int (length payload), [] @ [0x50, 0xA0, 0x4D, 255] @ payload, 255 + 1) \<and>
      int (length payload) = 2 * kADCChannels * 2)"
proof -
  let ?p = "Packet_new (replicate 10 [0, 0])"
  let ?q = "\<lparr>mPoint = 2, mData = [[100, - 50], [1, 2]] @ replicate 8 [0, 0]\<rparr>"
  have h1: "Packet_inv ?p"
    by (simp add: Packet_inv_def Packet_new_def kPointsPerMediumSizePacket_def kADCChannels_def
        list_all_iff)
  have h2: "(1 :: int) \<le> 1" by simp
  have h3: "(1 :: int) \<le> kPointsPerMediumSizePacket" by (simp add: kPointsPerMediumSizePacket_def)
  have h4: "mPoint ?p = 0" by (simp add: Packet_new_def)
  have g1: "Packet_inv ?q"
    by (simp add: Packet_inv_def kPointsPerMediumSizePacket_def kADCChannels_def list_all_iff)
  have g2: "(1 :: int) \<le> 2" by simp
  have g3: "(2 :: int) \<le> kPointsPerMediumSizePacket" by (simp add: kPointsPerMediumSizePacket_def)
  from Packet_write_layout[OF h1 h2 h3, of LittleEndian "[]" 7] obtain payload where
    s: "(1 :: int) = 1 \<and> mPoint ?p = 0 \<longrightarrow>
        do {
          (ok1, p1) \<leftarrow> addSample 1 ?p 0 100;
          (ok2, p2) \<leftarrow> addSample 1 p1 1 (- 50);
          (n, stream', c') \<leftarrow> Packet_write LittleEndian 1 p2 [] 7;
          Some (ok1, ok2, n, emitted [] stream')
        } = Some (True, True, 8, [0x50, 0xA0, 0x44, 7] @ object_bytes LittleEndian 2 (100 :: 16 word) @
                        object_bytes LittleEndian 2 (- 50 :: 16 word)) \<and>
        object_bytes LittleEndian 2 (100 :: 16 word) = [0x64, 0x00] \<and>
        object_bytes LittleEndian 2 (- 50 :: 16 word) = [0xCE, 0xFF]"
    by blast
  have a: "do {
          (ok1, p1) \<leftarrow> addSample 1 ?p 0 100;
          (ok2, p2) \<leftarrow> addSample 1 p1 1 (- 50);
          (n, stream', c') \<leftarrow> Packet_write LittleEndian 1 p2 [] 7;
          Some (ok1, ok2, n, emitted [] stream')
        } = Some (True, True, 8, [0x50, 0xA0, 0x44, 7, 0x64, 0x00, 0xCE, 0xFF])"
  proof -
    from s h4 have
      "do {
          (ok1, p1) \<leftarrow> addSample 1 ?p 0 100;
          (ok2, p2) \<leftarrow> addSample 1 p1 1 (- 50);
          (n, stream', c') \<leftarrow> Packet_write LittleEndian 1 p2 [] 7;
          Some (ok1, ok2, n, emitted [] stream')
        } = Some (True, True, 8, [0x50, 0xA0, 0x44, 7] @ object_bytes LittleEndian 2 (100 :: 16 word) @
                        object_bytes LittleEndian 2 (- 50 :: 16 word))"
      and "object_bytes LittleEndian 2 (100 :: 16 word) = [0x64, 0x00]"
      and "object_bytes LittleEndian 2 (- 50 :: 16 word) = [0xCE, 0xFF]"
      by blast+
    then show ?thesis by (simp only: append.simps)
  qed
  from Packet_write_layout[OF g1 g2 g3, of BigEndian "[]" 255]
  have b: "\<exists>payload.
      Packet_write BigEndian 2 ?q [] 255 =
        Some (4 + int (length payload), [] @ [0x50, 0xA0, 0x4D, 255] @ payload, 255 + 1) \<and>
      int (length payload) = 2 * kADCChannels * 2"
    by auto
  show ?thesis using h1 h2 h3 h4 g1 g2 g3 a b by blast
qed

section \<open>Adding a sample\<close>

text \<open>
  Claim C8. For a data packet in any state, a channel of the packet and a points-per-packet
  limit that the storage can hold: while the point index is below the limit, \<open>addSample\<close>
  returns true and stores the value in the slot of the current point and the given
  channel, leaving the point index and every other slot as they are; a second call for the
  same point and channel succeeds too and leaves the state that this second call alone
  would have left, so the last value written is the one stored. Once the point index has
  reached the limit, \<open>addSample\<close> returns false and the packet is unchanged.
\<close>

theorem addSample_stores:
  assumes "Packet_inv p" and "gN \<le> kPointsPerMediumSizePacket"
      and "0 \<le> chan" and "chan < kADCChannels"
  shows "(mPoint p < gN \<longrightarrow>
            (\<exists>p'. addSample gN p chan v = Some (True, p') \<and>
                   p' = p\<lparr>Packet.mData := (Packet.mData p)[nat (mPoint p) :=
                                             (Packet.mData p ! nat (mPoint p))[nat chan := v]]\<rparr> \<and>
                   mPoint p' = mPoint p \<and>
                   Packet.mData p' ! nat (mPoint p) ! nat chan = v \<and>
                   (\<forall>i j. (i, j) \<noteq> (nat (mPoint p), nat chan) \<longrightarrow>
                          Packet.mData p' ! i ! j = Packet.mData p ! i ! j) \<and>
                   addSample gN p' chan w = addSample gN p chan w \<and>
                   (\<exists>p''. addSample gN p' chan w = Some (True, p'') \<and>
                          Packet.mData p'' ! nat (mPoint p) ! nat chan = w))) \<and>
         (gN \<le> mPoint p \<longrightarrow> addSample gN p chan v = Some (False, p))"
proof (intro conjI impI)
  assume pt: "mPoint p < gN"
  let ?k = "nat (mPoint p)"
  let ?row = "Packet.mData p ! ?k"
  let ?p' = "\<lambda>x. p\<lparr>Packet.mData := (Packet.mData p)[?k := ?row[nat chan := x]]\<rparr>"
  have i: "?k < length (Packet.mData p)"
    using assms pt by (auto simp: Packet_inv_def)
  then have "?row \<in> set (Packet.mData p)" by simp
  then have j: "nat chan < length ?row"
    using assms by (auto simp: Packet_inv_def list_all_iff)
  have run: "\<And>x. addSample gN p chan x = Some (True, ?p' x)"
    by (rule addSample_ok[OF assms(1) pt assms(2,3,4)])
  have inv': "Packet_inv (?p' v)" by (rule addSample_inv[OF assms(1)])
  have again: "addSample gN (?p' v) chan w = Some (True, ?p' w)"
    using addSample_ok[OF inv' _ assms(2,3,4), of w] pt i by simp
  have rd: "\<And>x. Packet.mData (?p' x) ! ?k ! nat chan = x" using i j by simp
  have frame: "\<forall>a b. (a, b) \<noteq> (?k, nat chan) \<longrightarrow>
                 Packet.mData (?p' v) ! a ! b = Packet.mData p ! a ! b"
  proof (intro allI impI)
    fix a b assume ne: "(a, b) \<noteq> (?k, nat chan)"
    show "Packet.mData (?p' v) ! a ! b = Packet.mData p ! a ! b"
    proof (cases "a = ?k")
      case True
      then have "b \<noteq> nat chan" using ne by simp
      then show ?thesis using True i by simp
    next
      case False
      then show ?thesis by simp
    qed
  qed
  show "\<exists>p'. addSample gN p chan v = Some (True, p') \<and> p' = ?p' v \<and>
                   mPoint p' = mPoint p \<and>
                   Packet.mData p' ! nat (mPoint p) ! nat chan = v \<and>
                   (\<forall>i j. (i, j) \<noteq> (nat (mPoint p), nat chan) \<longrightarrow>
                          Packet.mData p' ! i ! j = Packet.mData p ! i ! j) \<and>
                   addSample gN p' chan w = addSample gN p chan w \<and>
                   (\<exists>p''. addSample gN p' chan w = Some (True, p'') \<and>
                          Packet.mData p'' ! nat (mPoint p) ! nat chan = w)"
  proof (rule exI[of _ "?p' v"], intro conjI)
    show "addSample gN p chan v = Some (True, ?p' v)" by (rule run)
    show "?p' v = ?p' v" by (rule refl)
    show "mPoint (?p' v) = mPoint p" by simp
    show "Packet.mData (?p' v) ! nat (mPoint p) ! nat chan = v" by (rule rd)
    show "\<forall>i j. (i, j) \<noteq> (nat (mPoint p), nat chan) \<longrightarrow>
                Packet.mData (?p' v) ! i ! j = Packet.mData p ! i ! j" by (rule frame)
    show "addSample gN (?p' v) chan w = addSample gN p chan w" using again run[of w] by simp
    show "\<exists>p''. addSample gN (?p' v) chan w = Some (True, p'') \<and>
                Packet.mData p'' ! nat (mPoint p) ! nat chan = w"
      using again rd[of w] by blast
  qed
next
  assume "gN \<le> mPoint p"
  then show "addSample gN p chan v = Some (False, p)" by (rule addSample_full)
qed

theorem addSample_stores_witness:
  "Packet_inv (Packet_new (replicate 10 [0, 0])) \<and> (1 :: int) \<le> kPointsPerMediumSizePacket \<and>
   (0 :: int) \<le> 1 \<and> (1 :: int) < kADCChannels \<and>
   mPoint (Packet_new (replicate 10 [0, 0])) < 1 \<and>
   (\<exists>p'. addSample 1 (Packet_new (replicate 10 [0, 0])) 1 7 = Some (True, p') \<and>
          Packet.mData p' ! 0 ! 1 = 7 \<and>
          (\<exists>p''. addSample 1 p' 1 9 = Some (True, p'') \<and> Packet.mData p'' ! 0 ! 1 = 9)) \<and>
   Packet_inv (nextPoint (Packet_new (replicate 10 [0, 0]))) \<and>
   1 \<le> mPoint (nextPoint (Packet_new (replicate 10 [0, 0]))) \<and>
   addSample 1 (nextPoint (Packet_new (replicate 10 [0, 0]))) 1 7 =
     Some (False, nextPoint (Packet_new (replicate 10 [0, 0])))"
proof -
  let ?p = "Packet_new (replicate 10 [0, 0])"
  have h1: "Packet_inv ?p"
    by (simp add: Packet_inv_def Packet_new_def kPointsPerMediumSizePacket_def kADCChannels_def
        list_all_iff)
  have h1': "Packet_inv (nextPoint ?p)"
    by (simp add: Packet_inv_def Packet_new_def nextPoint_def kPointsPerMediumSizePacket_def
        kADCChannels_def list_all_iff)
  have h2: "(1 :: int) \<le> kPointsPerMediumSizePacket" by (simp add: kPointsPerMediumSizePacket_def)
  have h3: "(0 :: int) \<le> 1" by simp
  have h4: "(1 :: int) < kADCChannels" by (simp add: kADCChannels_def)
  have m: "mPoint ?p < 1" "mPoint ?p = 0" by (simp_all add: Packet_new_def)
  have m': "1 \<le> mPoint (nextPoint ?p)" by (simp add: Packet_new_def nextPoint_def)
  from addSample_stores[OF h1 h2 h3 h4, of 7 9] m(1) obtain p' where
    a: "addSample 1 ?p 1 7 = Some (True, p')"
       "Packet.mData p' ! nat (mPoint ?p) ! nat 1 = 7"
       "\<exists>p''. addSample 1 p' 1 9 = Some (True, p'') \<and> Packet.mData p'' ! nat (mPoint ?p) ! nat 1 = 9"
    by blast
  from addSample_stores[OF h1' h2 h3 h4, of 7 9] m'
  have b: "addSample 1 (nextPoint ?p) 1 7 = Some (False, nextPoint ?p)" by blast
  have "\<exists>p'. addSample 1 ?p 1 7 = Some (True, p') \<and> Packet.mData p' ! 0 ! 1 = 7 \<and>
          (\<exists>p''. addSample 1 p' 1 9 = Some (True, p'') \<and> Packet.mData p'' ! 0 ! 1 = 9)"
    using a m(2) by (intro exI[of _ p']) simp
  then show ?thesis using h1 h1' h2 h3 h4 m(1) m' b by blast
qed

section \<open>The USB frame time packet on the wire\<close>

text \<open>
  Claim C9. The \<open>write\<close> of a \<open>LatestUSBFrameTimePacket\<close> adds 15 bytes to the stream: the
  two bytes of the header, the type byte \<open>L\<close> (0x4C), the sequence byte, the request
  number, the four bytes of the base tick, the two bytes of the frame number and the four
  bytes of the frame time. Its type byte differs from the \<open>N\<close> (0x4E) that the \<open>write\<close> of
  the base \<open>TimePacket\<close> sends; from the fourth byte on, its bytes are those of the base
  packet followed by the two frame fields. Each field reaches the wire: byte 3 is the
  packet counter, byte 4 the request number, and bytes 5 to 8, 9 to 10 and 11 to 14 read
  back, in the byte order of the processor, as the base tick, the frame number and the
  frame time. For the packet with tick 0x01020304, request number 9, frame number 0xBEEF
  and frame time -2, written with the counter at 200, the bytes are
  50 A0 4C C8 09 04 03 02 01 EF BE FE FF FF FF on the little-endian target, and
  50 A0 4C C8 09 01 02 03 04 BE EF FF FF FF FE in big-endian order.
\<close>

theorem LatestUSBFrameTimePacket_layout:
  "LatestUSBFrameTimePacket_write e
     (LatestUSBFrameTimePacket_new tick32us timeRequestNumber frameNumber latestFrameus) stream c =
     (15, stream @ [0x50, 0xA0, 0x4C, c, timeRequestNumber] @ object_bytes e 4 tick32us @
            object_bytes e 2 frameNumber @ object_bytes e 4 latestFrameus, c + 1) \<and>
   length (object_bytes e 4 tick32us) = 4 \<and> length (object_bytes e 2 frameNumber) = 2 \<and>
   length (object_bytes e 4 latestFrameus) = 4 \<and>
   TimePacket_write e (TimePacket_new tick32us timeRequestNumber) stream c =
     (9, stream @ [0x50, 0xA0, 0x4E, c, timeRequestNumber] @ object_bytes e 4 tick32us, c + 1) \<and>
   (let latest = emitted stream (fst (snd (LatestUSBFrameTimePacket_write e
          (LatestUSBFrameTimePacket_new tick32us timeRequestNumber frameNumber latestFrameus) stream c)));
        base = emitted stream (fst (snd (TimePacket_write e
          (TimePacket_new tick32us timeRequestNumber) stream c)))
    in latest ! 2 = 0x4C \<and> base ! 2 = 0x4E \<and> latest ! 2 \<noteq> base ! 2 \<and>
       drop 3 latest = drop 3 base @ object_bytes e 2 frameNumber @ object_bytes e 4 latestFrameus \<and>
       length latest = 15 \<and> take 2 latest = [0x50, 0xA0] \<and>
       latest ! 3 = c \<and> latest ! 4 = timeRequestNumber \<and>
       value_of_bytes e (take 4 (drop 5 latest)) = tick32us \<and>
       value_of_bytes e (take 2 (drop 9 latest)) = frameNumber \<and>
       value_of_bytes e (take 4 (drop 11 latest)) = latestFrameus) \<and>
   LatestUSBFrameTimePacket_write LittleEndian
     (LatestUSBFrameTimePacket_new 0x01020304 9 0xBEEF (- 2)) [] 200 =
     (15, [0x50, 0xA0, 0x4C, 200, 9, 0x04, 0x03, 0x02, 0x01, 0xEF, 0xBE, 0xFE, 0xFF, 0xFF, 0xFF], 201) \<and>
   LatestUSBFrameTimePacket_write BigEndian
     (LatestUSBFrameTimePacket_new 0x01020304 9 0xBEEF (- 2)) [] 200 =
     (15, [0x50, 0xA0, 0x4C, 200, 9, 0x01, 0x02, 0x03, 0x04, 0xBE, 0xEF, 0xFF, 0xFF, 0xFF, 0xFE], 201)"
proof -
  let ?t = "object_bytes e 4 tick32us" and ?f = "object_bytes e 2 frameNumber"
  and ?u = "object_bytes e 4 latestFrameus"
  let ?latest = "[0x50, 0xA0, 0x4C, c, timeRequestNumber] @ ?t @ ?f @ ?u"
  have len: "length ?t = 4" "length ?f = 2" "length ?u = 4" by (simp_all add: length_object_bytes)
  have t: "take 4 (drop 5 ?latest) = ?t" using len by simp
  have f: "take 2 (drop 9 ?latest) = ?f" using len by simp
  have u: "take 4 (drop 11 ?latest) = ?u" using len by simp
  have vals: "value_of_bytes e (take 4 (drop 5 ?latest)) = tick32us"
             "value_of_bytes e (take 2 (drop 9 ?latest)) = frameNumber"
             "value_of_bytes e (take 4 (drop 11 ?latest)) = latestFrameus"
    by (simp_all only: t f u value_of_object_bytes32 value_of_object_bytes16)
  have le: "LatestUSBFrameTimePacket_write LittleEndian
     (LatestUSBFrameTimePacket_new 0x01020304 9 0xBEEF (- 2)) [] 200 =
     (15, [0x50, 0xA0, 0x4C, 200, 9, 0x04, 0x03, 0x02, 0x01, 0xEF, 0xBE, 0xFE, 0xFF, 0xFF, 0xFF], 201)"
    by (simp add: LatestUSBFrameTimePacket_write_eq object_bytes_def upt_rec)
  have be: "LatestUSBFrameTimePacket_write BigEndian
     (LatestUSBFrameTimePacket_new 0x01020304 9 0xBEEF (- 2)) [] 200 =
     (15, [0x50, 0xA0, 0x4C, 200, 9, 0x01, 0x02, 0x03, 0x04, 0xBE, 0xEF, 0xFF, 0xFF, 0xFF, 0xFE], 201)"
    by (simp add: LatestUSBFrameTimePacket_write_eq object_bytes_def upt_rec)
  have em: "emitted stream (stream @ ?latest) = ?latest" by (simp add: emitted_def)
  have old: "LatestUSBFrameTimePacket_write e
     (LatestUSBFrameTimePacket_new tick32us timeRequestNumber frameNumber latestFrameus) stream c =
     (15, stream @ ?latest, c + 1)"
    by (rule LatestUSBFrameTimePacket_write_eq)
  have base: "TimePacket_write e (TimePacket_new tick32us timeRequestNumber) stream c =
     (9, stream @ [0x50, 0xA0, 0x4E, c, timeRequestNumber] @ ?t, c + 1)"
    by (rule TimePacket_write_eq)
  have body: "(let latest = emitted stream (fst (snd (LatestUSBFrameTimePacket_write e
          (LatestUSBFrameTimePacket_new tick32us timeRequestNumber frameNumber latestFrameus) stream c)));
        base = emitted stream (fst (snd (TimePacket_write e
          (TimePacket_new tick32us timeRequestNumber) stream c)))
    in latest ! 2 = 0x4C \<and> base ! 2 = 0x4E \<and> latest ! 2 \<noteq> base ! 2 \<and>
       drop 3 latest = drop 3 base @ ?f @ ?u \<and>
       length latest = 15 \<and> take 2 latest = [0x50, 0xA0] \<and>
       latest ! 3 = c \<and> latest ! 4 = timeRequestNumber \<and>
       value_of_bytes e (take 4 (drop 5 latest)) = tick32us \<and>
       value_of_bytes e (take 2 (drop 9 latest)) = frameNumber \<and>
       value_of_bytes e (take 4 (drop 11 latest)) = latestFrameus)"
    unfolding Let_def old base fst_conv snd_conv em
    using vals len by (simp add: emitted_def)
  show ?thesis using old base len body le be by (simp only: simp_thms)
qed

theorem LatestUSBFrameTimePacket_layout_witness:
  "emitted [0x11, 0x22]
     (fst (snd (LatestUSBFrameTimePacket_write LittleEndian
        (LatestUSBFrameTimePacket_new 0x0A0B0C0D 0x21 0x1234 0x7F00FF80) [0x11, 0x22] 255))) =
     [0x50, 0xA0, 0x4C, 0xFF, 0x21, 0x0D, 0x0C, 0x0B, 0x0A, 0x34, 0x12, 0x80, 0xFF, 0x00, 0x7F] \<and>
   snd (snd (LatestUSBFrameTimePacket_write LittleEndian
        (LatestUSBFrameTimePacket_new 0x0A0B0C0D 0x21 0x1234 0x7F00FF80) [0x11, 0x22] 255)) = 0"
proof -
  have b: "object_bytes LittleEndian 4 (0x0A0B0C0D :: 32 word) = [0x0D, 0x0C, 0x0B, 0x0A]"
          "object_bytes LittleEndian 2 (0x1234 :: 16 word) = [0x34, 0x12]"
          "object_bytes LittleEndian 4 (0x7F00FF80 :: 32 word) = [0x80, 0xFF, 0x00, 0x7F]"
    by (simp_all add: object_bytes_def upt_rec)
  from LatestUSBFrameTimePacket_layout[of LittleEndian "0x0A0B0C0D" "0x21" "0x1234" "0x7F00FF80" "[0x11, 0x22]" 255]
  have "LatestUSBFrameTimePacket_write LittleEndian
          (LatestUSBFrameTimePacket_new 0x0A0B0C0D 0x21 0x1234 0x7F00FF80) [0x11, 0x22] 255 =
        (15, [0x11, 0x22] @ [0x50, 0xA0, 0x4C, 255, 0x21] @
               object_bytes LittleEndian 4 (0x0A0B0C0D :: 32 word) @
               object_bytes LittleEndian 2 (0x1234 :: 16 word) @
               object_bytes LittleEndian 4 (0x7F00FF80 :: 32 word), 255 + 1)"
    by blast
  then show ?thesis by (simp add: b emitted_def)
qed

end
